theory Spec2Isabelle
  imports Main "HOL-Library.Multiset" "HOL-Library.Word"
begin

section \<open>The node list of the A-star pathfinder (nodelist.hpp)\<close>

text \<open>
  \<^verbatim>\<open>NodeList<Titem>\<close> composes an arena of nodes, two hash tables (open and closed
  nodes) and a binary heap (the open queue). Every container holds pointers to nodes
  that live in memory owned by the arena and written by the caller.

  A pointer is the address of a node. The arena hands out the addresses 0, 1, 2, ...
  in this order, so a pointer below the arena's length is a node of the arena; any
  other address stands for a node object that lives elsewhere.

  The node memory is a function from addresses to node contents. The node list reads
  two things through a pointer: the key (\<^verbatim>\<open>GetKey()\<close>) and, inside the heap, the
  total estimated cost that orders the queue. The caller owns both fields, so the
  memory is an argument of every operation that reads through a pointer.
\<close>

type_synonym ptr = nat

record 'k Titem =
  GetKey :: 'k
  GetCostEstimate :: int

type_synonym 'k memory = "ptr \<Rightarrow> 'k Titem"

subsection \<open>Errors\<close>

text \<open>
  \<^verbatim>\<open>assert_str_error\<close> of error.cpp ends the program with the message
  "Assertion failed at line ... of ...". \<open>AssertionFailed n\<close> is that abort for the
  assertion at line \<open>n\<close> of nodelist.hpp. \<open>ContractViolation\<close> is the same abort raised
  inside a collaborator (arena, hash table or heap) whose caller broke the precondition of
  an operation.
\<close>

datatype error = AssertionFailed nat | ContractViolation

text \<open>
  Modelled from the spec: the macro \<^verbatim>\<open>dbg_assert\<close>, whose definition is missing.
  Section 7 of the specification: a violated precondition fails fast (abort) in a build
  with assertions and is unchecked otherwise. The model is the build with assertions; the
  first argument is the line of the assertion.
\<close>

definition dbg_assert :: "nat \<Rightarrow> bool \<Rightarrow> error + unit" where
  "dbg_assert line cond = (if cond then Inr () else Inl (AssertionFailed line))"

subsection \<open>Arena allocator\<close>

text \<open>
  Modelled from the spec: \<^verbatim>\<open>BumpAllocContainer\<close> (core/arena_alloc.hpp), whose source
  is missing. Section 4.1: \<^verbatim>\<open>New\<close> returns a handle to fresh storage and never
  invalidates handles issued before; \<^verbatim>\<open>Length\<close> is the number of nodes ever allocated;
  no node is ever freed. The arena is its length, the fresh handle is the old length.
  The contents of a fresh node are what the node memory holds at its address; the node
  list does not read them before the caller hands the node back. Exhaustion of the
  machine's memory is not modelled.
\<close>

type_synonym BumpAllocContainer = nat

definition BumpAllocContainer_New :: "BumpAllocContainer \<Rightarrow> ptr \<times> BumpAllocContainer" where
  "BumpAllocContainer_New a = (a, Suc a)"

definition BumpAllocContainer_Length :: "BumpAllocContainer \<Rightarrow> nat" where
  "BumpAllocContainer_Length a = a"

subsection \<open>Membership index\<close>

text \<open>
  Modelled from the spec: \<^verbatim>\<open>HashTable\<close> (misc/hashtable.hpp), whose source is
  missing. Section 4.2: the table maps a node's key to the node's handle. \<^verbatim>\<open>Find\<close>
  returns the handle stored for a key or nothing; \<^verbatim>\<open>Push\<close> inserts a node under its own
  key, and a key that is already present is a programming error; \<^verbatim>\<open>Pop\<close> removes the
  entry of a key (or of a node, through its key), and an absent key is a programming
  error; \<^verbatim>\<open>Count\<close> is the number of entries. The table is an association list; the
  key of an entry is the key the node had when it was pushed (section 6: the caller
  never changes the key of an indexed node).
\<close>

type_synonym 'k HashTable = "('k \<times> ptr) list"

definition HashTable_Find :: "'k HashTable \<Rightarrow> 'k \<Rightarrow> ptr option" where
  "HashTable_Find tbl k = map_of tbl k"

definition HashTable_Push :: "'k memory \<Rightarrow> ptr \<Rightarrow> 'k HashTable \<Rightarrow> error + 'k HashTable" where
  "HashTable_Push M item tbl =
     (if HashTable_Find tbl (GetKey (M item)) \<noteq> None then Inl ContractViolation
      else Inr ((GetKey (M item), item) # tbl))"

definition HashTable_Pop :: "'k \<Rightarrow> 'k HashTable \<Rightarrow> error + (ptr \<times> 'k HashTable)" where
  "HashTable_Pop k tbl =
     (case HashTable_Find tbl k of
        None \<Rightarrow> Inl ContractViolation
      | Some item \<Rightarrow> Inr (item, filter (\<lambda>e. fst e \<noteq> k) tbl))"

definition HashTable_Pop_item :: "'k memory \<Rightarrow> ptr \<Rightarrow> 'k HashTable \<Rightarrow> error + 'k HashTable" where
  "HashTable_Pop_item M item tbl =
     (case HashTable_Pop (GetKey (M item)) tbl of
        Inl e \<Rightarrow> Inl e
      | Inr (_, tbl') \<Rightarrow> Inr tbl')"

definition HashTable_Count :: "'k HashTable \<Rightarrow> nat" where
  "HashTable_Count tbl = length tbl"

subsection \<open>Priority queue\<close>

text \<open>
  Modelled from the spec: \<^verbatim>\<open>CBinaryHeapT\<close> (misc/binaryheap.hpp), whose source is
  missing. Section 4.3: a binary heap of node handles in an array, ordered by
  the total estimated cost of the nodes, ascending. \<^verbatim>\<open>Include\<close> appends and sifts up;
  \<^verbatim>\<open>Shift\<close> removes the first element, moves the last element to the front and sifts
  down; \<^verbatim>\<open>Remove\<close> replaces the element at an index by the last element and sifts up
  or down as needed; \<^verbatim>\<open>FindIndex\<close> is the position of a handle. \<^verbatim>\<open>Begin\<close> and
  \<^verbatim>\<open>Shift\<close> on an empty heap, an index outside the heap and a handle that is not in
  the heap are programming errors. Tie-break: two elements are exchanged only when the
  lower one is strictly cheaper, and of two children the left one is preferred unless
  the right one is strictly cheaper.

  The array is a list with the root at index 0; the parent of index \<open>i\<close> is
  \<open>(i - 1) div 2\<close>, its children are \<open>2 * i + 1\<close> and \<open>2 * i + 2\<close>. The heap compares
  nodes through their handles, so the sifting functions take the cost function.
\<close>

type_synonym CBinaryHeapT = "ptr list"

function sift_up :: "('a \<Rightarrow> int) \<Rightarrow> 'a list \<Rightarrow> nat \<Rightarrow> 'a list" where
  "sift_up c xs i =
     (if i = 0 \<or> length xs \<le> i then xs
      else if c (xs ! i) < c (xs ! ((i - 1) div 2))
           then sift_up c (xs[i := xs ! ((i - 1) div 2), (i - 1) div 2 := xs ! i]) ((i - 1) div 2)
           else xs)"
  by pat_completeness auto
termination
  by (relation "measure (\<lambda>(c, xs, i). i)") auto

definition min_child :: "('a \<Rightarrow> int) \<Rightarrow> 'a list \<Rightarrow> nat \<Rightarrow> nat" where
  "min_child c xs i =
     (if 2 * i + 2 < length xs \<and> c (xs ! (2 * i + 2)) < c (xs ! (2 * i + 1))
      then 2 * i + 2 else 2 * i + 1)"

function sift_down :: "('a \<Rightarrow> int) \<Rightarrow> 'a list \<Rightarrow> nat \<Rightarrow> 'a list" where
  "sift_down c xs i =
     (if length xs \<le> 2 * i + 1 then xs
      else if c (xs ! min_child c xs i) < c (xs ! i)
           then sift_down c (xs[i := xs ! min_child c xs i, min_child c xs i := xs ! i])
                  (min_child c xs i)
           else xs)"
  by pat_completeness auto
termination
  by (relation "measure (\<lambda>(c, xs, i). length xs - i)") (auto simp: min_child_def)

text \<open>Both equations unfold themselves; they are applied by hand.\<close>

declare sift_up.simps [simp del] sift_down.simps [simp del]

definition cost :: "'k memory \<Rightarrow> ptr \<Rightarrow> int" where
  "cost M p = GetCostEstimate (M p)"

definition CBinaryHeapT_IsEmpty :: "CBinaryHeapT \<Rightarrow> bool" where
  "CBinaryHeapT_IsEmpty q = (q = [])"

definition CBinaryHeapT_Begin :: "CBinaryHeapT \<Rightarrow> error + ptr" where
  "CBinaryHeapT_Begin q = (case q of [] \<Rightarrow> Inl ContractViolation | x # _ \<Rightarrow> Inr x)"

definition CBinaryHeapT_Include :: "'k memory \<Rightarrow> ptr \<Rightarrow> CBinaryHeapT \<Rightarrow> CBinaryHeapT" where
  "CBinaryHeapT_Include M item q = sift_up (cost M) (q @ [item]) (length q)"

definition CBinaryHeapT_Shift :: "'k memory \<Rightarrow> CBinaryHeapT \<Rightarrow> error + (ptr \<times> CBinaryHeapT)" where
  "CBinaryHeapT_Shift M q =
     (case q of
        [] \<Rightarrow> Inl ContractViolation
      | x # xs \<Rightarrow>
          Inr (x, if xs = [] then [] else sift_down (cost M) (last xs # butlast xs) 0))"

fun find_index_from :: "nat \<Rightarrow> ptr \<Rightarrow> ptr list \<Rightarrow> nat option" where
  "find_index_from n item [] = None"
| "find_index_from n item (x # xs) =
     (if x = item then Some n else find_index_from (Suc n) item xs)"

definition CBinaryHeapT_FindIndex :: "ptr \<Rightarrow> CBinaryHeapT \<Rightarrow> error + nat" where
  "CBinaryHeapT_FindIndex item q =
     (case find_index_from 0 item q of None \<Rightarrow> Inl ContractViolation | Some i \<Rightarrow> Inr i)"

definition CBinaryHeapT_Remove :: "'k memory \<Rightarrow> nat \<Rightarrow> CBinaryHeapT \<Rightarrow> error + CBinaryHeapT" where
  "CBinaryHeapT_Remove M i q =
     (if length q \<le> i then Inl ContractViolation
      else if Suc i = length q then Inr (butlast q)
      else Inr (sift_down (cost M) (sift_up (cost M) ((butlast q)[i := last q]) i) i))"

subsection \<open>The node list\<close>

text \<open>The five members of \<^verbatim>\<open>class NodeList\<close>; \<open>None\<close> is \<^verbatim>\<open>nullptr\<close>.\<close>

record 'k NodeList =
  items :: BumpAllocContainer
  open_nodes :: "'k HashTable"
  closed_nodes :: "'k HashTable"
  open_queue :: CBinaryHeapT
  new_node :: "ptr option"

text \<open>The constructor: empty containers, no node under construction.\<close>

definition NodeList_init :: "'k NodeList" where
  "NodeList_init =
     \<lparr>items = 0, open_nodes = [], closed_nodes = [], open_queue = [], new_node = None\<rparr>"

text \<open>
  The three counters return \<^verbatim>\<open>int\<close>. \<open>OpenCount\<close> and \<open>ClosedCount\<close> cast the count
  of the hash table with \<^verbatim>\<open>(int)\<close>, \<open>TotalCount\<close> returns the length of the arena as
  \<^verbatim>\<open>int\<close>: the conversion keeps the low 32 bits and reads them as a signed number.
\<close>

definition int_cast :: "nat \<Rightarrow> int" where
  "int_cast n = sint (word_of_nat n :: 32 word)"

definition OpenCount :: "'k NodeList \<Rightarrow> int" where
  "OpenCount s = int_cast (HashTable_Count (open_nodes s))"

definition ClosedCount :: "'k NodeList \<Rightarrow> int" where
  "ClosedCount s = int_cast (HashTable_Count (closed_nodes s))"

definition TotalCount :: "'k NodeList \<Rightarrow> int" where
  "TotalCount s = int_cast (BumpAllocContainer_Length (items s))"

definition CreateNewNode :: "'k NodeList \<Rightarrow> ptr \<times> 'k NodeList" where
  "CreateNewNode s =
     (case new_node s of
        None \<Rightarrow> (case BumpAllocContainer_New (items s) of
                   (p, a) \<Rightarrow> (p, s\<lparr>items := a, new_node := Some p\<rparr>))
      | Some p \<Rightarrow> (p, s))"

definition FoundBestNode :: "ptr \<Rightarrow> 'k NodeList \<Rightarrow> 'k NodeList" where
  "FoundBestNode item s = (if Some item = new_node s then s\<lparr>new_node := None\<rparr> else s)"

definition InsertOpenNode :: "'k memory \<Rightarrow> ptr \<Rightarrow> 'k NodeList \<Rightarrow> error + 'k NodeList" where
  "InsertOpenNode M item s =
     (case dbg_assert 79 (HashTable_Find (closed_nodes s) (GetKey (M item)) = None) of
        Inl e \<Rightarrow> Inl e
      | Inr _ \<Rightarrow>
          (case HashTable_Push M item (open_nodes s) of
             Inl e \<Rightarrow> Inl e
           | Inr tbl \<Rightarrow>
               Inr (s\<lparr>open_nodes := tbl,
                      open_queue := CBinaryHeapT_Include M item (open_queue s),
                      new_node := (if Some item = new_node s then None else new_node s)\<rparr>)))"

definition GetBestOpenNode :: "'k NodeList \<Rightarrow> error + (ptr option \<times> 'k NodeList)" where
  "GetBestOpenNode s =
     (if \<not> CBinaryHeapT_IsEmpty (open_queue s)
      then (case CBinaryHeapT_Begin (open_queue s) of
              Inl e \<Rightarrow> Inl e
            | Inr item \<Rightarrow> Inr (Some item, s))
      else Inr (None, s))"

definition PopBestOpenNode :: "'k memory \<Rightarrow> 'k NodeList \<Rightarrow> error + (ptr option \<times> 'k NodeList)" where
  "PopBestOpenNode M s =
     (if \<not> CBinaryHeapT_IsEmpty (open_queue s)
      then (case CBinaryHeapT_Shift M (open_queue s) of
              Inl e \<Rightarrow> Inl e
            | Inr (item, q) \<Rightarrow>
                (case HashTable_Pop_item M item (open_nodes s) of
                   Inl e \<Rightarrow> Inl e
                 | Inr tbl \<Rightarrow> Inr (Some item, s\<lparr>open_queue := q, open_nodes := tbl\<rparr>)))
      else Inr (None, s))"

definition DequeueBestOpenNode :: "'k memory \<Rightarrow> 'k NodeList \<Rightarrow> error + 'k NodeList" where
  "DequeueBestOpenNode M s =
     (case dbg_assert 109 (\<not> CBinaryHeapT_IsEmpty (open_queue s)) of
        Inl e \<Rightarrow> Inl e
      | Inr _ \<Rightarrow>
          (case CBinaryHeapT_Shift M (open_queue s) of
             Inl e \<Rightarrow> Inl e
           | Inr (_, q) \<Rightarrow> Inr (s\<lparr>open_queue := q\<rparr>)))"

definition ReenqueueOpenNode :: "'k memory \<Rightarrow> ptr \<Rightarrow> 'k NodeList \<Rightarrow> 'k NodeList" where
  "ReenqueueOpenNode M item s = s\<lparr>open_queue := CBinaryHeapT_Include M item (open_queue s)\<rparr>"

definition PopAlreadyDequeuedOpenNode :: "'k \<Rightarrow> 'k NodeList \<Rightarrow> error + (ptr \<times> 'k NodeList)" where
  "PopAlreadyDequeuedOpenNode k s =
     (case HashTable_Pop k (open_nodes s) of
        Inl e \<Rightarrow> Inl e
      | Inr (item, tbl) \<Rightarrow> Inr (item, s\<lparr>open_nodes := tbl\<rparr>))"

definition FindOpenNode :: "'k NodeList \<Rightarrow> 'k \<Rightarrow> ptr option" where
  "FindOpenNode s k = HashTable_Find (open_nodes s) k"

definition PopOpenNode :: "'k memory \<Rightarrow> 'k \<Rightarrow> 'k NodeList \<Rightarrow> error + (ptr \<times> 'k NodeList)" where
  "PopOpenNode M k s =
     (case HashTable_Pop k (open_nodes s) of
        Inl e \<Rightarrow> Inl e
      | Inr (item, tbl) \<Rightarrow>
          (case CBinaryHeapT_FindIndex item (open_queue s) of
             Inl e \<Rightarrow> Inl e
           | Inr i \<Rightarrow>
               (case CBinaryHeapT_Remove M i (open_queue s) of
                  Inl e \<Rightarrow> Inl e
                | Inr q \<Rightarrow> Inr (item, s\<lparr>open_nodes := tbl, open_queue := q\<rparr>))))"

definition InsertClosedNode :: "'k memory \<Rightarrow> ptr \<Rightarrow> 'k NodeList \<Rightarrow> error + 'k NodeList" where
  "InsertClosedNode M item s =
     (case dbg_assert 141 (HashTable_Find (open_nodes s) (GetKey (M item)) = None) of
        Inl e \<Rightarrow> Inl e
      | Inr _ \<Rightarrow>
          (case HashTable_Push M item (closed_nodes s) of
             Inl e \<Rightarrow> Inl e
           | Inr tbl \<Rightarrow> Inr (s\<lparr>closed_nodes := tbl\<rparr>)))"

definition FindClosedNode :: "'k NodeList \<Rightarrow> 'k \<Rightarrow> ptr option" where
  "FindClosedNode s k = HashTable_Find (closed_nodes s) k"

subsection \<open>Sequences of calls\<close>

text \<open>
  The operations of the facade that can change the node list or abort. The counters and
  the two lookups \<open>FindOpenNode\<close> and \<open>FindClosedNode\<close> only read. Every call comes
  with the node memory at the time of the call, since the caller writes to nodes between
  calls.
\<close>

datatype 'k facade_call =
    Call_CreateNewNode
  | Call_FoundBestNode ptr
  | Call_InsertOpenNode ptr
  | Call_GetBestOpenNode
  | Call_PopBestOpenNode
  | Call_DequeueBestOpenNode
  | Call_ReenqueueOpenNode ptr
  | Call_PopAlreadyDequeuedOpenNode 'k
  | Call_PopOpenNode 'k
  | Call_InsertClosedNode ptr

definition discard_result :: "error + ('r \<times> 's) \<Rightarrow> error + 's" where
  "discard_result r = (case r of Inl e \<Rightarrow> Inl e | Inr (_, s) \<Rightarrow> Inr s)"

fun call :: "'k memory \<Rightarrow> 'k facade_call \<Rightarrow> 'k NodeList \<Rightarrow> error + 'k NodeList" where
  "call M Call_CreateNewNode s = Inr (snd (CreateNewNode s))"
| "call M (Call_FoundBestNode item) s = Inr (FoundBestNode item s)"
| "call M (Call_InsertOpenNode item) s = InsertOpenNode M item s"
| "call M Call_GetBestOpenNode s = discard_result (GetBestOpenNode s)"
| "call M Call_PopBestOpenNode s = discard_result (PopBestOpenNode M s)"
| "call M Call_DequeueBestOpenNode s = DequeueBestOpenNode M s"
| "call M (Call_ReenqueueOpenNode item) s = Inr (ReenqueueOpenNode M item s)"
| "call M (Call_PopAlreadyDequeuedOpenNode k) s = discard_result (PopAlreadyDequeuedOpenNode k s)"
| "call M (Call_PopOpenNode k) s = discard_result (PopOpenNode M k s)"
| "call M (Call_InsertClosedNode item) s = InsertClosedNode M item s"

text \<open>A sequence of calls stops at the first abort.\<close>

fun run :: "('k memory \<times> 'k facade_call) list \<Rightarrow> 'k NodeList \<Rightarrow> error + 'k NodeList" where
  "run [] s = Inr s"
| "run ((M, c) # cs) s = (case call M c s of Inl e \<Rightarrow> Inl e | Inr s' \<Rightarrow> run cs s')"

text \<open>The states of a node list: the constructed one, and every state a call returns.\<close>

inductive reachable :: "'k NodeList \<Rightarrow> bool" where
  reachable_init: "reachable NodeList_init"
| reachable_call: "reachable s \<Longrightarrow> call M c s = Inr s' \<Longrightarrow> reachable s'"

text \<open>
  The same without the three operations that touch only one of the open index and the
  open queue; instead \<open>DequeueBestOpenNode\<close> comes together with the call that ends the
  window it opens, \<open>PopAlreadyDequeuedOpenNode\<close> or \<open>ReenqueueOpenNode\<close>.
\<close>

fun window_call :: "'k facade_call \<Rightarrow> bool" where
  "window_call Call_DequeueBestOpenNode = True"
| "window_call (Call_ReenqueueOpenNode item) = True"
| "window_call (Call_PopAlreadyDequeuedOpenNode k) = True"
| "window_call c = False"

inductive paired_reachable :: "'k NodeList \<Rightarrow> bool" where
  paired_init: "paired_reachable NodeList_init"
| paired_call:
    "paired_reachable s \<Longrightarrow> \<not> window_call c \<Longrightarrow> call M c s = Inr s' \<Longrightarrow> paired_reachable s'"
| paired_dequeue_pop:
    "paired_reachable s \<Longrightarrow> DequeueBestOpenNode M s = Inr s1 \<Longrightarrow>
     PopAlreadyDequeuedOpenNode k s1 = Inr (item, s') \<Longrightarrow> paired_reachable s'"
| paired_dequeue_reenqueue:
    "paired_reachable s \<Longrightarrow> DequeueBestOpenNode M s = Inr s1 \<Longrightarrow>
     ReenqueueOpenNode M' item s1 = s' \<Longrightarrow> paired_reachable s'"

text \<open>
  The states reached together with the node memory, when the caller keeps to section 6 of
  the specification: between calls the caller writes to nodes, but changes neither the key
  of a node that an index holds nor a node that the queue holds. \<open>stable_reachable ok M s\<close>
  says that \<open>s\<close> is reached with the node memory \<open>M\<close> by calls that \<open>ok\<close> admits in the
  state they are made in.
\<close>

definition indexed :: "'k NodeList \<Rightarrow> ('k \<times> ptr) set" where
  "indexed s = set (open_nodes s) \<union> set (closed_nodes s)"

inductive stable_reachable ::
  "('k facade_call \<Rightarrow> 'k NodeList \<Rightarrow> bool) \<Rightarrow> 'k memory \<Rightarrow> 'k NodeList \<Rightarrow> bool"
  for ok :: "'k facade_call \<Rightarrow> 'k NodeList \<Rightarrow> bool" where
  stable_init: "stable_reachable ok M NodeList_init"
| stable_write:
    "stable_reachable ok M s \<Longrightarrow> \<forall>e \<in> indexed s. GetKey (M' (snd e)) = GetKey (M (snd e)) \<Longrightarrow>
     \<forall>p \<in> set (open_queue s). M' p = M p \<Longrightarrow> stable_reachable ok M' s"
| stable_call:
    "stable_reachable ok M s \<Longrightarrow> ok c s \<Longrightarrow> call M c s = Inr s' \<Longrightarrow> stable_reachable ok M s'"

text \<open>
  Two choices of \<open>ok\<close>: every call outside the window between dequeueing and
  re-inserting; every call whose node argument is a node of the arena.
\<close>

definition no_window :: "'k facade_call \<Rightarrow> 'k NodeList \<Rightarrow> bool" where
  "no_window c s = (\<not> window_call c)"

fun arena_args :: "'k facade_call \<Rightarrow> 'k NodeList \<Rightarrow> bool" where
  "arena_args (Call_FoundBestNode item) s = (item < BumpAllocContainer_Length (items s))"
| "arena_args (Call_InsertOpenNode item) s = (item < BumpAllocContainer_Length (items s))"
| "arena_args (Call_ReenqueueOpenNode item) s = (item < BumpAllocContainer_Length (items s))"
| "arena_args (Call_InsertClosedNode item) s = (item < BumpAllocContainer_Length (items s))"
| "arena_args c s = True"

text \<open>
  The calls that open a window, and the calls that close one; how many of each a sequence
  of calls holds.
\<close>

fun dequeue_call :: "'k facade_call \<Rightarrow> bool" where
  "dequeue_call Call_DequeueBestOpenNode = True"
| "dequeue_call c = False"

fun closing_call :: "'k facade_call \<Rightarrow> bool" where
  "closing_call (Call_ReenqueueOpenNode item) = True"
| "closing_call (Call_PopAlreadyDequeuedOpenNode k) = True"
| "closing_call c = False"

definition dequeues :: "('k memory \<times> 'k facade_call) list \<Rightarrow> nat" where
  "dequeues tr = length (filter (\<lambda>tc. dequeue_call (snd tc)) tr)"

definition closes :: "('k memory \<times> 'k facade_call) list \<Rightarrow> nat" where
  "closes tr = length (filter (\<lambda>tc. closing_call (snd tc)) tr)"

text \<open>
  The states reached together with the node memory and with the nodes that are dequeued
  and not yet re-enqueued or popped, when the window is used as section 4.4 of the
  specification describes it: \<open>DequeueBestOpenNode\<close> takes out the node that
  \<open>GetBestOpenNode\<close> shows; \<open>ReenqueueOpenNode\<close> is given a dequeued node;
  \<open>PopAlreadyDequeuedOpenNode\<close> is given the key of a dequeued node. Any other calls
  may come in between, and any number of nodes may be dequeued at a time. Between calls the
  caller writes to nodes, but changes neither the key of a node that an index holds nor the
  cost of a node that the queue holds; the cost of a dequeued node may change.
\<close>

inductive windowed_reachable :: "'k memory \<Rightarrow> 'k NodeList \<Rightarrow> ptr multiset \<Rightarrow> bool" where
  windowed_init: "windowed_reachable M NodeList_init {#}"
| windowed_write:
    "windowed_reachable M s D \<Longrightarrow> \<forall>e \<in> indexed s. GetKey (M' (snd e)) = GetKey (M (snd e)) \<Longrightarrow>
     \<forall>p \<in> set (open_queue s). cost M' p = cost M p \<Longrightarrow> windowed_reachable M' s D"
| windowed_call:
    "windowed_reachable M s D \<Longrightarrow> \<not> window_call c \<Longrightarrow> call M c s = Inr s' \<Longrightarrow>
     windowed_reachable M s' D"
| windowed_dequeue:
    "windowed_reachable M s D \<Longrightarrow> GetBestOpenNode s = Inr (Some b, s) \<Longrightarrow>
     DequeueBestOpenNode M s = Inr s' \<Longrightarrow> windowed_reachable M s' (add_mset b D)"
| windowed_reenqueue:
    "windowed_reachable M s D \<Longrightarrow> b \<in># D \<Longrightarrow>
     windowed_reachable M (ReenqueueOpenNode M b s) (D - {#b#})"
| windowed_pop_dequeued:
    "windowed_reachable M s D \<Longrightarrow> b \<in># D \<Longrightarrow>
     PopAlreadyDequeuedOpenNode (GetKey (M b)) s = Inr (item, s') \<Longrightarrow>
     windowed_reachable M s' (D - {#b#})"

text \<open>
  Calling \<open>PopBestOpenNode\<close> until it returns \<^verbatim>\<open>nullptr\<close>: the nodes it returned, in
  order, and how the loop ended, with the final node list or with the abort.
\<close>

function PopBestAll :: "'k memory \<Rightarrow> 'k NodeList \<Rightarrow> ptr list \<times> (error + 'k NodeList)" where
  "PopBestAll M s =
     (case PopBestOpenNode M s of
        Inl e \<Rightarrow> ([], Inl e)
      | Inr (None, s') \<Rightarrow> ([], Inr s')
      | Inr (Some item, s') \<Rightarrow> (case PopBestAll M s' of (ps, r) \<Rightarrow> (item # ps, r)))"
  by pat_completeness auto
termination
proof (relation "measure (\<lambda>(M, s). length (open_queue s))")
  show "wf (measure (\<lambda>(M :: 'k memory, s :: 'k NodeList). length (open_queue s)))"
    by simp
next
  fix M :: "'k memory" and s s' :: "'k NodeList" and x item r
  assume a: "PopBestOpenNode M s = Inr x" "(r, s') = x" "r = Some item"
  have len: "\<And>c i (xs :: ptr list). length (sift_down c xs i) = length xs"
  proof -
    fix c i and xs :: "ptr list"
    show "length (sift_down c xs i) = length xs"
      by (induction c xs i rule: sift_down.induct) (subst sift_down.simps, simp)
  qed
  from a have "length (open_queue s') < length (open_queue s)"
    by (auto simp: PopBestOpenNode_def CBinaryHeapT_Shift_def len
             split: if_splits sum.splits list.splits prod.splits)
  then show "((M, s'), (M, s)) \<in> measure (\<lambda>(M, s). length (open_queue s))"
    by simp
qed

declare PopBestAll.simps [simp del]

fun clears_new_node :: "'k facade_call \<Rightarrow> bool" where
  "clears_new_node (Call_InsertOpenNode item) = True"
| "clears_new_node (Call_FoundBestNode item) = True"
| "clears_new_node c = False"

subsection \<open>Invariants\<close>

text \<open>The heap order: no element is cheaper than its parent.\<close>

definition heap_inv :: "('a \<Rightarrow> int) \<Rightarrow> 'a list \<Rightarrow> bool" where
  "heap_inv c xs = (\<forall>i < length xs. 0 < i \<longrightarrow> c (xs ! ((i - 1) div 2)) \<le> c (xs ! i))"

text \<open>
  The heap order everywhere except at index \<open>i\<close>, whose element may be cheaper than its
  parent (\<open>up_inv\<close>) or more expensive than its children (\<open>down_inv\<close>); the parent of
  \<open>i\<close> is already no more expensive than the children of \<open>i\<close>.
\<close>

definition up_inv :: "('a \<Rightarrow> int) \<Rightarrow> 'a list \<Rightarrow> nat \<Rightarrow> bool" where
  "up_inv c xs i =
     ((\<forall>j < length xs. 0 < j \<and> j \<noteq> i \<longrightarrow> c (xs ! ((j - 1) div 2)) \<le> c (xs ! j)) \<and>
      (\<forall>j < length xs. 0 < i \<and> 0 < j \<and> (j - 1) div 2 = i \<longrightarrow>
          c (xs ! ((i - 1) div 2)) \<le> c (xs ! j)))"

definition down_inv :: "('a \<Rightarrow> int) \<Rightarrow> 'a list \<Rightarrow> nat \<Rightarrow> bool" where
  "down_inv c xs i =
     ((\<forall>j < length xs. 0 < j \<and> (j - 1) div 2 \<noteq> i \<longrightarrow> c (xs ! ((j - 1) div 2)) \<le> c (xs ! j)) \<and>
      (\<forall>j < length xs. 0 < i \<and> 0 < j \<and> (j - 1) div 2 = i \<longrightarrow>
          c (xs ! ((i - 1) div 2)) \<le> c (xs ! j)))"

definition keys_of :: "'k HashTable \<Rightarrow> 'k set" where
  "keys_of tbl = fst ` set tbl"

text \<open>No key is in both indexes (invariant I1).\<close>

definition disjoint_inv :: "'k NodeList \<Rightarrow> bool" where
  "disjoint_inv s = (keys_of (open_nodes s) \<inter> keys_of (closed_nodes s) = {})"

text \<open>No index holds a key twice.\<close>

definition distinct_inv :: "'k NodeList \<Rightarrow> bool" where
  "distinct_inv s = (distinct (map fst (open_nodes s)) \<and> distinct (map fst (closed_nodes s)))"

text \<open>
  The open queue and the open index hold the same nodes, every node once and under its
  current key (invariant I2 outside the window).
\<close>

definition entry :: "'k memory \<Rightarrow> ptr \<Rightarrow> 'k \<times> ptr" where
  "entry M p = (GetKey (M p), p)"

definition open_paired :: "'k memory \<Rightarrow> 'k NodeList \<Rightarrow> bool" where
  "open_paired M s =
     (distinct (map fst (open_nodes s)) \<and>
      mset (map (entry M) (open_queue s)) = mset (open_nodes s))"

text \<open>
  The same with the window open: the open index holds the nodes of the queue and the
  dequeued nodes \<open>D\<close>, every node once and under its current key.
\<close>

definition open_windowed :: "'k memory \<Rightarrow> 'k NodeList \<Rightarrow> ptr multiset \<Rightarrow> bool" where
  "open_windowed M s D =
     (distinct (map fst (open_nodes s)) \<and>
      mset (open_nodes s) = image_mset (entry M) (mset (open_queue s) + D))"

text \<open>
  What \<open>PopBestOpenNode\<close> relies on: the queue is a heap, the open index holds no key
  twice, and every node of the queue is in the open index under its key.
\<close>

definition open_wf :: "'k memory \<Rightarrow> 'k NodeList \<Rightarrow> bool" where
  "open_wf M s =
     (heap_inv (cost M) (open_queue s) \<and>
      distinct (map fst (open_nodes s)) \<and>
      (\<forall>p \<in> set (open_queue s). HashTable_Find (open_nodes s) (GetKey (M p)) = Some p))"

text \<open>
  Every indexed node is a node of the arena and is stored under its current key.
\<close>

definition arena_inv :: "'k memory \<Rightarrow> 'k NodeList \<Rightarrow> bool" where
  "arena_inv M s =
     (\<forall>e \<in> indexed s. snd e < BumpAllocContainer_Length (items s) \<and> GetKey (M (snd e)) = fst e)"

subsection \<open>A concrete node memory\<close>

text \<open>
  Three nodes for the examples: the node at address \<open>p\<close> has the key \<open>p\<close>; the nodes 0,
  1 and 2 cost 5, 3 and 7.
\<close>

definition example_memory :: "nat memory" where
  "example_memory p =
     \<lparr>GetKey = p, GetCostEstimate = (if p = 0 then 5 else if p = 1 then 3 else 7)\<rparr>"

text \<open>The same memory after the caller has set the cost of the node 1 to 4.\<close>

definition example_memory_updated :: "nat memory" where
  "example_memory_updated = example_memory(1 := \<lparr>GetKey = 1, GetCostEstimate = 4\<rparr>)"

section \<open>Properties\<close>

subsection \<open>The binary heap\<close>

lemma parent_less: "0 < (i::nat) \<Longrightarrow> (i - 1) div 2 < i"
  by arith

lemma sift_up_length [simp]: "length (sift_up c xs i) = length xs"
  by (induction c xs i rule: sift_up.induct) (subst sift_up.simps, simp)

lemma sift_down_length [simp]: "length (sift_down c xs i) = length xs"
  by (induction c xs i rule: sift_down.induct) (subst sift_down.simps, simp)

lemma sift_up_mset [simp]: "mset (sift_up c xs i) = mset xs"
proof (induction c xs i rule: sift_up.induct)
  case (1 c xs i)
  show ?case
  proof (cases "\<not> (i = 0 \<or> length xs \<le> i) \<and> c (xs ! i) < c (xs ! ((i - 1) div 2))")
    case True
    then have "mset (sift_up c xs i) = mset (xs[i := xs ! ((i - 1) div 2), (i - 1) div 2 := xs ! i])"
      using 1 by (subst sift_up.simps) simp
    also have "\<dots> = mset xs" using True parent_less[of i] by (simp add: mset_swap)
    finally show ?thesis .
  next
    case False
    then show ?thesis by (subst sift_up.simps) auto
  qed
qed

lemma min_child_gt: "i < min_child c xs i"
  by (simp add: min_child_def)

lemma min_child_lt: "2 * i + 1 < length xs \<Longrightarrow> min_child c xs i < length xs"
  by (simp add: min_child_def)

lemma sift_down_mset [simp]: "mset (sift_down c xs i) = mset xs"
proof (induction c xs i rule: sift_down.induct)
  case (1 c xs i)
  show ?case
  proof (cases "\<not> length xs \<le> 2 * i + 1 \<and> c (xs ! min_child c xs i) < c (xs ! i)")
    case True
    then have "mset (sift_down c xs i) = mset (xs[i := xs ! min_child c xs i, min_child c xs i := xs ! i])"
      using 1 by (subst sift_down.simps) simp
    also have "\<dots> = mset xs" using True min_child_lt[of i xs c] by (simp add: mset_swap)
    finally show ?thesis .
  next
    case False
    then show ?thesis by (subst sift_down.simps) auto
  qed
qed

lemma up_inv_heap: "up_inv c xs i \<Longrightarrow> i = 0 \<or> length xs \<le> i \<or> c (xs ! ((i - 1) div 2)) \<le> c (xs ! i) \<Longrightarrow> heap_inv c xs"
  unfolding up_inv_def heap_inv_def
proof (intro allI impI)
  fix j
  assume a: "(\<forall>j<length xs. 0 < j \<and> j \<noteq> i \<longrightarrow> c (xs ! ((j - 1) div 2)) \<le> c (xs ! j)) \<and>
      (\<forall>j<length xs. 0 < i \<and> 0 < j \<and> (j - 1) div 2 = i \<longrightarrow> c (xs ! ((i - 1) div 2)) \<le> c (xs ! j))"
    and b: "i = 0 \<or> length xs \<le> i \<or> c (xs ! ((i - 1) div 2)) \<le> c (xs ! i)"
    and j: "j < length xs" "0 < j"
  show "c (xs ! ((j - 1) div 2)) \<le> c (xs ! j)"
  proof (cases "j = i")
    case True
    with b j show ?thesis by auto
  next
    case False
    with a j show ?thesis by blast
  qed
qed


lemma up_inv_swap:
  assumes "up_inv c xs i" "0 < i" "i < length xs" "c (xs ! i) < c (xs ! ((i - 1) div 2))"
  shows "up_inv c (xs[i := xs ! ((i - 1) div 2), (i - 1) div 2 := xs ! i]) ((i - 1) div 2)"
proof -
  let ?p = "(i - 1) div 2"
  let ?ys = "xs[i := xs ! ?p, ?p := xs ! i]"
  have p: "?p < i" using assms(2) by arith
  have A: "\<And>j. j < length xs \<Longrightarrow> 0 < j \<Longrightarrow> j \<noteq> i \<Longrightarrow> c (xs ! ((j - 1) div 2)) \<le> c (xs ! j)"
    using assms(1) unfolding up_inv_def by blast
  have B: "\<And>j. j < length xs \<Longrightarrow> 0 < j \<Longrightarrow> (j - 1) div 2 = i \<Longrightarrow> c (xs ! ?p) \<le> c (xs ! j)"
    using assms(1,2) unfolding up_inv_def by blast
  have yi: "?ys ! i = xs ! ?p" using p assms(3) by (simp add: nth_list_update)
  have yp: "?ys ! ?p = xs ! i" using p assms(3) by (simp add: nth_list_update)
  have yo: "\<And>j. j \<noteq> i \<Longrightarrow> j \<noteq> ?p \<Longrightarrow> ?ys ! j = xs ! j" by simp
  show ?thesis
    unfolding up_inv_def
  proof (intro conjI allI impI)
    fix j assume j: "j < length ?ys" "0 < j \<and> j \<noteq> ?p"
    let ?q = "(j - 1) div 2"
    from j have jl: "j < length xs" and j0: "0 < j" and jp: "j \<noteq> ?p" by simp_all
    have q: "?q < j" using j0 by arith
    show "c (?ys ! ?q) \<le> c (?ys ! j)"
    proof (cases "j = i")
      case True
      have "c (?ys ! ?p) \<le> c (?ys ! i)" unfolding yi yp using assms(4) by simp
      then show ?thesis unfolding True .
    next
      case False
      have yj: "?ys ! j = xs ! j" using False jp by (rule yo)
      consider "?q = i" | "?q = ?p" | "?q \<noteq> i" "?q \<noteq> ?p" by blast
      then show ?thesis
      proof cases
        case 1
        have "c (xs ! ?p) \<le> c (xs ! j)" using jl j0 1 by (rule B)
        then show ?thesis unfolding yj 1 yi .
      next
        case 2
        have "c (xs ! ?q) \<le> c (xs ! j)" using jl j0 False by (rule A)
        then have "c (xs ! i) \<le> c (xs ! j)" using assms(4) unfolding 2 by simp
        then show ?thesis unfolding yj 2 yp .
      next
        case 3
        have "c (xs ! ?q) \<le> c (xs ! j)" using jl j0 False by (rule A)
        moreover have "?ys ! ?q = xs ! ?q" using 3 by (rule yo)
        ultimately show ?thesis unfolding yj by simp
      qed
    qed
  next
    fix j assume j: "j < length ?ys" "0 < ?p \<and> 0 < j \<and> (j - 1) div 2 = ?p"
    let ?g = "(?p - 1) div 2"
    from j have jl: "j < length xs" and p0: "0 < ?p" and j0: "0 < j" and jq: "(j - 1) div 2 = ?p" by simp_all
    have g: "?g < ?p" using p0 by arith
    have yg: "?ys ! ?g = xs ! ?g" using g p by (intro yo) simp_all
    have pl: "?p < length xs" using p assms(3) by simp
    have pi: "?p \<noteq> i" using p by simp
    have gp: "c (xs ! ?g) \<le> c (xs ! ?p)" using pl p0 pi by (rule A)
    show "c (?ys ! ?g) \<le> c (?ys ! j)"
    proof (cases "j = i")
      case True
      show ?thesis unfolding True yi yg by (rule gp)
    next
      case False
      have "j \<noteq> ?p" using jq j0 by arith
      with False have "?ys ! j = xs ! j" by (rule yo)
      moreover have "c (xs ! ?p) \<le> c (xs ! j)" using A[OF jl j0 False] unfolding jq .
      ultimately show ?thesis using yg gp by simp
    qed
  qed
qed

lemma sift_up_heap: "up_inv c xs i \<Longrightarrow> heap_inv c (sift_up c xs i)"
proof (induction c xs i rule: sift_up.induct)
  case (1 c xs i)
  show ?case
  proof (cases "i = 0 \<or> length xs \<le> i \<or> c (xs ! ((i - 1) div 2)) \<le> c (xs ! i)")
    case True
    then have "sift_up c xs i = xs" by (subst sift_up.simps) auto
    with up_inv_heap[OF "1.prems" True] show ?thesis by simp
  next
    case False
    then have eq: "sift_up c xs i = sift_up c (xs[i := xs ! ((i - 1) div 2), (i - 1) div 2 := xs ! i]) ((i - 1) div 2)"
      by (subst sift_up.simps) auto
    have "up_inv c (xs[i := xs ! ((i - 1) div 2), (i - 1) div 2 := xs ! i]) ((i - 1) div 2)"
      using up_inv_swap[OF "1.prems"] False by auto
    then show ?thesis using "1.IH" False eq by auto
  qed
qed


lemma child_cases: "0 < (j::nat) \<Longrightarrow> (j - 1) div 2 = i \<Longrightarrow> j = 2 * i + 1 \<or> j = 2 * i + 2"
  by arith

lemma min_child_parent: "(min_child c xs i - 1) div 2 = i"
  by (simp add: min_child_def)

lemma min_child_le:
  assumes "j < length xs" "0 < j" "(j - 1) div 2 = i"
  shows "c (xs ! min_child c xs i) \<le> c (xs ! j)"
proof -
  from child_cases[OF assms(2,3)] show ?thesis
  proof
    assume "j = 2 * i + 1"
    then show ?thesis by (simp add: min_child_def)
  next
    assume "j = 2 * i + 2"
    then show ?thesis using assms(1) by (simp add: min_child_def)
  qed
qed

lemma down_inv_heap:
  assumes "down_inv c xs i" "length xs \<le> 2 * i + 1 \<or> c (xs ! i) \<le> c (xs ! min_child c xs i)"
  shows "heap_inv c xs"
  unfolding heap_inv_def
proof (intro allI impI)
  fix j assume j: "j < length xs" "0 < j"
  show "c (xs ! ((j - 1) div 2)) \<le> c (xs ! j)"
  proof (cases "(j - 1) div 2 = i")
    case True
    from child_cases[OF j(2) True] j(1) have "\<not> length xs \<le> 2 * i + 1" by auto
    with assms(2) have "c (xs ! i) \<le> c (xs ! min_child c xs i)" by simp
    also have "\<dots> \<le> c (xs ! j)" using j True by (rule min_child_le)
    finally show ?thesis unfolding True .
  next
    case False
    with assms(1) j show ?thesis unfolding down_inv_def by blast
  qed
qed

lemma down_inv_swap:
  assumes "down_inv c xs i" "2 * i + 1 < length xs" "c (xs ! min_child c xs i) < c (xs ! i)"
  shows "down_inv c (xs[i := xs ! min_child c xs i, min_child c xs i := xs ! i]) (min_child c xs i)"
proof -
  let ?m = "min_child c xs i"
  let ?ys = "xs[i := xs ! ?m, ?m := xs ! i]"
  have m: "i < ?m" by (rule min_child_gt)
  have ml: "?m < length xs" using assms(2) by (rule min_child_lt)
  have mp: "(?m - 1) div 2 = i" by (rule min_child_parent)
  have m0: "0 < ?m" using m by simp
  have A: "\<And>j. j < length xs \<Longrightarrow> 0 < j \<Longrightarrow> (j - 1) div 2 \<noteq> i \<Longrightarrow> c (xs ! ((j - 1) div 2)) \<le> c (xs ! j)"
    using assms(1) unfolding down_inv_def by blast
  have B: "\<And>j. j < length xs \<Longrightarrow> 0 < i \<Longrightarrow> 0 < j \<Longrightarrow> (j - 1) div 2 = i \<Longrightarrow> c (xs ! ((i - 1) div 2)) \<le> c (xs ! j)"
    using assms(1) unfolding down_inv_def by blast
  have yi: "?ys ! i = xs ! ?m" using m ml by (simp add: nth_list_update)
  have ym: "?ys ! ?m = xs ! i" using m ml by (simp add: nth_list_update)
  have yo: "\<And>j. j \<noteq> i \<Longrightarrow> j \<noteq> ?m \<Longrightarrow> ?ys ! j = xs ! j" by simp
  show ?thesis
    unfolding down_inv_def
  proof (intro conjI allI impI)
    fix j assume j: "j < length ?ys" "0 < j \<and> (j - 1) div 2 \<noteq> ?m"
    let ?q = "(j - 1) div 2"
    from j have jl: "j < length xs" and j0: "0 < j" and qm: "?q \<noteq> ?m" by simp_all
    have q: "?q < j" using j0 by arith
    consider "j = ?m" | "j = i" | "j \<noteq> ?m" "j \<noteq> i" by blast
    then show "c (?ys ! ?q) \<le> c (?ys ! j)"
    proof cases
      case 1
      have "c (?ys ! i) \<le> c (?ys ! ?m)" unfolding yi ym using assms(3) by simp
      then show ?thesis unfolding 1 mp .
    next
      case 2
      let ?g = "(i - 1) div 2"
      have i0: "0 < i" using j0 2 by simp
      have g: "?g < i" using i0 by arith
      have "?ys ! ?g = xs ! ?g" using g m by (intro yo) simp_all
      moreover have "c (xs ! ?g) \<le> c (xs ! ?m)" using ml i0 m0 mp by (rule B)
      ultimately show ?thesis unfolding 2 yi by simp
    next
      case 3
      have yj: "?ys ! j = xs ! j" using 3(2,1) by (rule yo)
      show ?thesis
      proof (cases "?q = i")
        case True
        have "c (xs ! ?m) \<le> c (xs ! j)" using jl j0 True by (rule min_child_le)
        then show ?thesis unfolding yj True yi .
      next
        case False
        have "?ys ! ?q = xs ! ?q" using False qm by (rule yo)
        moreover have "c (xs ! ?q) \<le> c (xs ! j)" using jl j0 False by (rule A)
        ultimately show ?thesis unfolding yj by simp
      qed
    qed
  next
    fix j assume j: "j < length ?ys" "0 < ?m \<and> 0 < j \<and> (j - 1) div 2 = ?m"
    from j have jl: "j < length xs" and j0: "0 < j" and jq: "(j - 1) div 2 = ?m" by simp_all
    have jm: "?m < j" using jq j0 by arith
    have "?ys ! j = xs ! j" using jm m by (intro yo) simp_all
    moreover have "c (xs ! ?m) \<le> c (xs ! j)" using A[OF jl j0] jq m by simp
    ultimately show "c (?ys ! ((?m - 1) div 2)) \<le> c (?ys ! j)" unfolding mp yi by simp
  qed
qed

lemma sift_down_heap: "down_inv c xs i \<Longrightarrow> heap_inv c (sift_down c xs i)"
proof (induction c xs i rule: sift_down.induct)
  case (1 c xs i)
  show ?case
  proof (cases "length xs \<le> 2 * i + 1 \<or> c (xs ! i) \<le> c (xs ! min_child c xs i)")
    case True
    then have "sift_down c xs i = xs" by (subst sift_down.simps) auto
    with down_inv_heap[OF "1.prems" True] show ?thesis by simp
  next
    case False
    then have eq: "sift_down c xs i =
        sift_down c (xs[i := xs ! min_child c xs i, min_child c xs i := xs ! i]) (min_child c xs i)"
      by (subst sift_down.simps) auto
    have "down_inv c (xs[i := xs ! min_child c xs i, min_child c xs i := xs ! i]) (min_child c xs i)"
      using down_inv_swap[OF "1.prems"] False by auto
    then show ?thesis using "1.IH" False eq by auto
  qed
qed

lemma heap_inv_root:
  assumes "heap_inv c xs" "i < length xs"
  shows "c (xs ! 0) \<le> c (xs ! i)"
  using assms(2)
proof (induction i rule: less_induct)
  case (less i)
  show ?case
  proof (cases "i = 0")
    case True
    then show ?thesis by simp
  next
    case False
    then have p: "(i - 1) div 2 < i" by arith
    have "c (xs ! 0) \<le> c (xs ! ((i - 1) div 2))" using less.IH[OF p] p less.prems by simp
    also have "\<dots> \<le> c (xs ! i)" using assms(1) less.prems False unfolding heap_inv_def by simp
    finally show ?thesis .
  qed
qed

lemma sift_down_id: "heap_inv c xs \<Longrightarrow> sift_down c xs i = xs"
proof -
  assume h: "heap_inv c xs"
  have "length xs \<le> 2 * i + 1 \<or> c (xs ! i) \<le> c (xs ! min_child c xs i)"
  proof (cases "length xs \<le> 2 * i + 1")
    case False
    then have "min_child c xs i < length xs" by (simp add: min_child_lt)
    with h min_child_gt[of i c xs] min_child_parent[of c xs i] show ?thesis
      unfolding heap_inv_def by (metis gr_implies_not0 less_nat_zero_code neq0_conv)
  qed simp
  then show ?thesis by (subst sift_down.simps) auto
qed

lemma heap_inv_Nil [simp]: "heap_inv c []"
  by (simp add: heap_inv_def)

lemma Include_length [simp]: "length (CBinaryHeapT_Include M item q) = Suc (length q)"
  by (simp add: CBinaryHeapT_Include_def)

lemma Include_mset [simp]: "mset (CBinaryHeapT_Include M item q) = add_mset item (mset q)"
  by (simp add: CBinaryHeapT_Include_def)

lemma Include_heap: 
  assumes "heap_inv (cost M) q"
  shows "heap_inv (cost M) (CBinaryHeapT_Include M item q)"
proof -
  have "up_inv (cost M) (q @ [item]) (length q)"
    unfolding up_inv_def
  proof (intro conjI allI impI)
    fix j assume j: "j < length (q @ [item])" "0 < j \<and> j \<noteq> length q"
    then have jl: "j < length q" and j0: "0 < j" by simp_all
    have p: "(j - 1) div 2 < length q" using jl j0 by arith
    show "cost M ((q @ [item]) ! ((j - 1) div 2)) \<le> cost M ((q @ [item]) ! j)"
      using assms jl j0 p unfolding heap_inv_def by (simp add: nth_append)
  next
    fix j assume j: "j < length (q @ [item])" "0 < length q \<and> 0 < j \<and> (j - 1) div 2 = length q"
    then have "length q < j" by arith
    with j(1) have False by simp
    then show "cost M ((q @ [item]) ! ((length q - 1) div 2)) \<le> cost M ((q @ [item]) ! j)" ..
  qed
  then show ?thesis unfolding CBinaryHeapT_Include_def by (rule sift_up_heap)
qed

lemma Shift_Nil: "CBinaryHeapT_Shift M [] = Inl ContractViolation"
  by (simp add: CBinaryHeapT_Shift_def)

lemma Shift_result:
  assumes "CBinaryHeapT_Shift M q = Inr (x, q')"
  shows "q \<noteq> [] \<and> x = hd q \<and> mset q = add_mset x (mset q') \<and> Suc (length q') = length q"
proof (cases q)
  case Nil
  with assms show ?thesis by (simp add: CBinaryHeapT_Shift_def)
next
  case (Cons y ys)
  show ?thesis
  proof (cases "ys = []")
    case True
    with assms Cons show ?thesis by (auto simp: CBinaryHeapT_Shift_def)
  next
    case False
    then have "mset (last ys # butlast ys) = mset ys"
      by (metis append_butlast_last_id mset.simps(2) mset_append union_mset_add_mset_right add.right_neutral mset.simps(1) union_commute)
    with assms Cons False show ?thesis by (auto simp: CBinaryHeapT_Shift_def)
  qed
qed

lemma Shift_heap:
  assumes "heap_inv (cost M) q" "CBinaryHeapT_Shift M q = Inr (x, q')"
  shows "heap_inv (cost M) q'"
proof (cases q)
  case Nil
  with assms show ?thesis by (simp add: CBinaryHeapT_Shift_def)
next
  case (Cons y ys)
  show ?thesis
  proof (cases "ys = []")
    case True
    with assms Cons show ?thesis by (auto simp: CBinaryHeapT_Shift_def)
  next
    case False
    let ?zs = "last ys # butlast ys"
    have len: "length ?zs = length ys" using False by simp
    have nth: "\<And>j. 0 < j \<Longrightarrow> j < length ys \<Longrightarrow> ?zs ! j = (y # ys) ! j"
    proof -
      fix j :: nat assume "0 < j" "j < length ys"
      then obtain k where k: "j = Suc k" "k < length ys - 1" by (cases j) auto
      then show "?zs ! j = (y # ys) ! j" by (simp add: nth_butlast)
    qed
    have "down_inv (cost M) ?zs 0"
      unfolding down_inv_def
    proof (intro conjI allI impI)
      fix j assume j: "j < length ?zs" "0 < j \<and> (j - 1) div 2 \<noteq> 0"
      then have jl: "j < length ys" and j0: "0 < j" and p0: "0 < (j - 1) div 2" using len by simp_all
      have pl: "(j - 1) div 2 < length ys" using jl by arith
      have "cost M ((y # ys) ! ((j - 1) div 2)) \<le> cost M ((y # ys) ! j)"
        using assms(1) jl j0 unfolding Cons heap_inv_def by simp
      then show "cost M (?zs ! ((j - 1) div 2)) \<le> cost M (?zs ! j)"
        unfolding nth[OF j0 jl] nth[OF p0 pl] .
    qed simp
    then have "heap_inv (cost M) (sift_down (cost M) ?zs 0)" by (rule sift_down_heap)
    with assms Cons False show ?thesis by (auto simp: CBinaryHeapT_Shift_def)
  qed
qed

lemma Shift_min:
  assumes "heap_inv (cost M) q" "CBinaryHeapT_Shift M q = Inr (x, q')" "y \<in> set q"
  shows "cost M x \<le> cost M y"
proof -
  from Shift_result[OF assms(2)] have q: "q \<noteq> []" "x = hd q" by simp_all
  from assms(3) obtain i where i: "i < length q" "q ! i = y" by (auto simp: in_set_conv_nth)
  from heap_inv_root[OF assms(1) i(1)] q i show ?thesis by (simp add: hd_conv_nth)
qed

lemma sift_up_id:
  "i = 0 \<or> length xs \<le> i \<or> \<not> c (xs ! i) < c (xs ! ((i - 1) div 2)) \<Longrightarrow> sift_up c xs i = xs"
  by (subst sift_up.simps) auto

lemma heap_inv_butlast: "heap_inv c xs \<Longrightarrow> heap_inv c (butlast xs)"
  unfolding heap_inv_def
proof (intro allI impI)
  fix i assume h: "\<forall>i<length xs. 0 < i \<longrightarrow> c (xs ! ((i - 1) div 2)) \<le> c (xs ! i)"
    and i: "i < length (butlast xs)" "0 < i"
  have p: "(i - 1) div 2 < length (butlast xs)" using i by arith
  from h i have "c (xs ! ((i - 1) div 2)) \<le> c (xs ! i)" by simp
  then show "c (butlast xs ! ((i - 1) div 2)) \<le> c (butlast xs ! i)"
    using i(1) p by (simp add: nth_butlast)
qed

lemma Remove_result:
  assumes "CBinaryHeapT_Remove M i q = Inr q'"
  shows "i < length q \<and> mset q = add_mset (q ! i) (mset q') \<and> Suc (length q') = length q"
proof -
  from assms have i: "i < length q" by (auto simp: CBinaryHeapT_Remove_def split: if_splits)
  then have ne: "q \<noteq> []" by auto
  have bl: "mset q = add_mset (last q) (mset (butlast q))"
    using ne by (metis append_butlast_last_id mset.simps(1) mset.simps(2) mset_append union_mset_add_mset_right add.right_neutral)
  show ?thesis
  proof (cases "Suc i = length q")
    case True
    then have "i = length q - 1" by simp
    then have "q ! i = last q" using ne by (simp add: last_conv_nth)
    with assms True bl i show ?thesis by (auto simp: CBinaryHeapT_Remove_def)
  next
    case False
    then have ib: "i < length (butlast q)" using i by simp
    have q': "q' = sift_down (cost M) (sift_up (cost M) ((butlast q)[i := last q]) i) i"
      using assms False i by (auto simp: CBinaryHeapT_Remove_def)
    have "mset q' = add_mset (last q) (mset (butlast q) - {#butlast q ! i#})"
      unfolding q' using ib by (simp add: mset_update)
    moreover have "butlast q ! i = q ! i" using ib by (simp add: nth_butlast)
    moreover have "q ! i \<in># mset (butlast q)" using ib \<open>butlast q ! i = q ! i\<close>
      by (metis nth_mem_mset)
    ultimately show ?thesis using bl i q' by simp
  qed
qed

lemma Remove_heap:
  assumes "heap_inv (cost M) q" "CBinaryHeapT_Remove M i q = Inr q'"
  shows "heap_inv (cost M) q'"
proof -
  let ?c = "cost M"
  from assms(2) have i: "i < length q" by (auto simp: CBinaryHeapT_Remove_def split: if_splits)
  show ?thesis
  proof (cases "Suc i = length q")
    case True
    with assms i show ?thesis by (auto simp: CBinaryHeapT_Remove_def heap_inv_butlast)
  next
    case False
    let ?b = "butlast q"
    let ?l = "last q"
    let ?ys = "?b[i := ?l]"
    let ?p = "(i - 1) div 2"
    have ib: "i < length ?b" using i False by simp
    have q': "q' = sift_down ?c (sift_up ?c ?ys i) i"
      using assms(2) False i by (auto simp: CBinaryHeapT_Remove_def)
    have H: "\<And>j. j < length q \<Longrightarrow> 0 < j \<Longrightarrow> ?c (q ! ((j - 1) div 2)) \<le> ?c (q ! j)"
      using assms(1) unfolding heap_inv_def by blast
    have yi: "?ys ! i = ?l" using ib by simp
    have yo: "\<And>j. j < length ?b \<Longrightarrow> j \<noteq> i \<Longrightarrow> ?ys ! j = q ! j" by (simp add: nth_butlast)
    have len: "length ?ys = length ?b" by simp
    have lb: "length ?b < length q" using i by simp
    \<comment> \<open>the parent of i is no more expensive than the children of i\<close>
    have B: "\<And>j. j < length ?b \<Longrightarrow> 0 < i \<Longrightarrow> 0 < j \<Longrightarrow> (j - 1) div 2 = i \<Longrightarrow> ?c (?ys ! ?p) \<le> ?c (?ys ! j)"
    proof -
      fix j assume j: "j < length ?b" "0 < i" "0 < j" "(j - 1) div 2 = i"
      have ji: "i < j" using j(3,4) by arith
      have pi: "?p < i" using j(2) by arith
      have "?c (q ! ?p) \<le> ?c (q ! i)" using H[OF i j(2)] .
      also have "\<dots> \<le> ?c (q ! j)" using H[of j] j lb by simp
      finally show "?c (?ys ! ?p) \<le> ?c (?ys ! j)"
        using yo[of j] yo[of ?p] j(1) ji pi ib by simp
    qed
    show ?thesis
    proof (cases "0 < i \<and> ?c ?l < ?c (q ! ?p)")
      case True
      then have i0: "0 < i" and lt: "?c ?l < ?c (q ! ?p)" by simp_all
      have pi: "?p < i" using i0 by arith
      have "up_inv ?c ?ys i"
        unfolding up_inv_def
      proof (intro conjI allI impI)
        fix j assume j: "j < length ?ys" "0 < j \<and> j \<noteq> i"
        then have jl: "j < length ?b" and j0: "0 < j" and ji: "j \<noteq> i" by simp_all
        have yj: "?ys ! j = q ! j" using jl ji by (rule yo)
        have ql: "(j - 1) div 2 < length ?b" using jl by arith
        show "?c (?ys ! ((j - 1) div 2)) \<le> ?c (?ys ! j)"
        proof (cases "(j - 1) div 2 = i")
          case True
          have "?c ?l \<le> ?c (q ! ?p)" using lt by simp
          also have "\<dots> \<le> ?c (q ! j)" using B[OF jl i0 j0 True] yo[of ?p] yj pi ib by simp
          finally show ?thesis unfolding True yi yj .
        next
          case False
          have "?ys ! ((j - 1) div 2) = q ! ((j - 1) div 2)" using ql False by (rule yo)
          then show ?thesis using H[of j] jl lb j0 yj by simp
        qed
      next
        fix j assume j: "j < length ?ys" "0 < i \<and> 0 < j \<and> (j - 1) div 2 = i"
        then show "?c (?ys ! ?p) \<le> ?c (?ys ! j)" using B[of j] by simp
      qed
      then have h: "heap_inv ?c (sift_up ?c ?ys i)" by (rule sift_up_heap)
      then have "sift_down ?c (sift_up ?c ?ys i) i = sift_up ?c ?ys i" by (rule sift_down_id)
      with h show ?thesis unfolding q' by simp
    next
      case False
      have same: "sift_up ?c ?ys i = ?ys"
      proof (cases "i = 0")
        case True
        then show ?thesis by (intro sift_up_id) simp
      next
        case F: False
        then have pi: "?p < i" by arith
        have "?ys ! ?p = q ! ?p" using pi ib by (intro yo) simp_all
        with False F yi have "\<not> ?c (?ys ! i) < ?c (?ys ! ?p)" by simp
        then show ?thesis by (intro sift_up_id) simp
      qed
      have "down_inv ?c ?ys i"
        unfolding down_inv_def
      proof (intro conjI allI impI)
        fix j assume j: "j < length ?ys" "0 < j \<and> (j - 1) div 2 \<noteq> i"
        then have jl: "j < length ?b" and j0: "0 < j" and qi: "(j - 1) div 2 \<noteq> i" by simp_all
        have ql: "(j - 1) div 2 < length ?b" using jl by arith
        have yq: "?ys ! ((j - 1) div 2) = q ! ((j - 1) div 2)" using ql qi by (rule yo)
        show "?c (?ys ! ((j - 1) div 2)) \<le> ?c (?ys ! j)"
        proof (cases "j = i")
          case True
          with False j0 have "?c (q ! ?p) \<le> ?c ?l" by simp
          then show ?thesis using yq yi True by simp
        next
          case F: False
          have "?ys ! j = q ! j" using jl F by (rule yo)
          then show ?thesis using H[of j] jl lb j0 yq by simp
        qed
      next
        fix j assume j: "j < length ?ys" "0 < i \<and> 0 < j \<and> (j - 1) div 2 = i"
        then show "?c (?ys ! ?p) \<le> ?c (?ys ! j)" using B[of j] by simp
      qed
      then have "heap_inv ?c (sift_down ?c ?ys i)" by (rule sift_down_heap)
      then show ?thesis unfolding q' same .
    qed
  qed
qed

lemma find_index_from_Some:
  "find_index_from n item xs = Some i \<Longrightarrow> n \<le> i \<and> i - n < length xs \<and> xs ! (i - n) = item"
proof (induction xs arbitrary: n)
  case Nil
  then show ?case by simp
next
  case (Cons x xs)
  show ?case
  proof (cases "x = item")
    case True
    with Cons.prems show ?thesis by simp
  next
    case False
    with Cons.prems have "find_index_from (Suc n) item xs = Some i" by simp
    from Cons.IH[OF this] show ?thesis by (auto simp: nth_Cons' Suc_diff_Suc)
  qed
qed

lemma FindIndex_result:
  "CBinaryHeapT_FindIndex item q = Inr i \<Longrightarrow> i < length q \<and> q ! i = item"
  using find_index_from_Some[of 0 item q i]
  by (auto simp: CBinaryHeapT_FindIndex_def split: option.splits)

subsection \<open>The hash table\<close>

lemma Find_None_iff: "HashTable_Find tbl k = None \<longleftrightarrow> k \<notin> keys_of tbl"
  by (simp add: HashTable_Find_def keys_of_def map_of_eq_None_iff)

lemma Pop_result:
  "HashTable_Pop k tbl = Inr (p, tbl') \<longleftrightarrow>
     HashTable_Find tbl k = Some p \<and> tbl' = filter (\<lambda>e. fst e \<noteq> k) tbl"
  by (auto simp: HashTable_Pop_def split: option.splits)

lemma keys_of_Cons [simp]: "keys_of (e # tbl) = insert (fst e) (keys_of tbl)"
  by (simp add: keys_of_def)

lemma keys_of_Nil [simp]: "keys_of [] = {}"
  by (simp add: keys_of_def)

lemma keys_of_filter [simp]: "keys_of (filter (\<lambda>e. fst e \<noteq> k) tbl) = keys_of tbl - {k}"
  by (auto simp: keys_of_def)

lemma Find_filter [simp]: "HashTable_Find (filter (\<lambda>e. fst e \<noteq> k) tbl) k = None"
  by (simp add: Find_None_iff)

lemma distinct_keys_filter: "distinct (map fst tbl) \<Longrightarrow> distinct (map fst (filter P tbl))"
  by (simp add: distinct_map_filter)

lemma Find_Some_mem: "HashTable_Find tbl k = Some p \<Longrightarrow> (k, p) \<in> set tbl"
  by (simp add: HashTable_Find_def map_of_SomeD)

lemma Find_Some_distinct:
  "distinct (map fst tbl) \<Longrightarrow> (k, p) \<in> set tbl \<Longrightarrow> HashTable_Find tbl k = Some p"
  by (simp add: HashTable_Find_def)

text \<open>With every key at most once, removing a key removes exactly one entry.\<close>

lemma filter_key_mset:
  assumes "distinct (map fst tbl)" "(k, p) \<in> set tbl"
  shows "mset tbl = add_mset (k, p) (mset (filter (\<lambda>e. fst e \<noteq> k) tbl))"
  using assms
proof (induction tbl)
  case Nil
  then show ?case by simp
next
  case (Cons e tbl)
  show ?case
  proof (cases "e = (k, p)")
    case True
    with Cons.prems(1) have "k \<notin> fst ` set tbl" by auto
    then have "filter (\<lambda>e. fst e \<noteq> k) tbl = tbl" by (auto simp: filter_id_conv)
    with True show ?thesis by simp
  next
    case False
    with Cons.prems have mem: "(k, p) \<in> set tbl" by auto
    with Cons.prems(1) have "fst e \<noteq> k" by (cases e) force
    moreover from Cons.prems(1) have "distinct (map fst tbl)" by simp
    ultimately show ?thesis using Cons.IH mem by simp
  qed
qed

lemma Pop_count:
  assumes "distinct (map fst tbl)" "HashTable_Pop k tbl = Inr (p, tbl')"
  shows "mset tbl = add_mset (k, p) (mset tbl') \<and> Suc (HashTable_Count tbl') = HashTable_Count tbl"
proof -
  from assms(2) have f: "HashTable_Find tbl k = Some p" and t: "tbl' = filter (\<lambda>e. fst e \<noteq> k) tbl"
    by (simp_all add: Pop_result)
  from filter_key_mset[OF assms(1) Find_Some_mem[OF f]] t
  have m: "mset tbl = add_mset (k, p) (mset tbl')" by simp
  then have "length tbl = Suc (length tbl')" by (metis size_mset size_add_mset)
  with m show ?thesis by (simp add: HashTable_Count_def)
qed

subsection \<open>What a successful call returns\<close>

lemma InsertOpenNode_Inr:
  "InsertOpenNode M item s = Inr s' \<longleftrightarrow>
     GetKey (M item) \<notin> keys_of (closed_nodes s) \<and> GetKey (M item) \<notin> keys_of (open_nodes s) \<and>
     s' = s\<lparr>open_nodes := (GetKey (M item), item) # open_nodes s,
            open_queue := CBinaryHeapT_Include M item (open_queue s),
            new_node := (if Some item = new_node s then None else new_node s)\<rparr>"
  by (auto simp: InsertOpenNode_def dbg_assert_def HashTable_Push_def Find_None_iff)

lemma InsertClosedNode_Inr:
  "InsertClosedNode M item s = Inr s' \<longleftrightarrow>
     GetKey (M item) \<notin> keys_of (open_nodes s) \<and> GetKey (M item) \<notin> keys_of (closed_nodes s) \<and>
     s' = s\<lparr>closed_nodes := (GetKey (M item), item) # closed_nodes s\<rparr>"
  by (auto simp: InsertClosedNode_def dbg_assert_def HashTable_Push_def Find_None_iff)

lemma GetBestOpenNode_eq:
  "GetBestOpenNode s = Inr (if open_queue s = [] then None else Some (hd (open_queue s)), s)"
  by (cases "open_queue s") (simp_all add: GetBestOpenNode_def CBinaryHeapT_IsEmpty_def CBinaryHeapT_Begin_def)

lemma PopBestOpenNode_None:
  "PopBestOpenNode M s = Inr (None, s') \<longleftrightarrow> open_queue s = [] \<and> s' = s"
  by (auto simp: PopBestOpenNode_def CBinaryHeapT_IsEmpty_def split: sum.splits prod.splits)

lemma PopBestOpenNode_Some:
  "PopBestOpenNode M s = Inr (Some item, s') \<longleftrightarrow>
     (\<exists>q p tbl. CBinaryHeapT_Shift M (open_queue s) = Inr (item, q) \<and>
        HashTable_Pop (GetKey (M item)) (open_nodes s) = Inr (p, tbl) \<and>
        s' = s\<lparr>open_queue := q, open_nodes := tbl\<rparr>)"
  by (auto simp: PopBestOpenNode_def CBinaryHeapT_IsEmpty_def HashTable_Pop_item_def Shift_Nil
           split: sum.splits prod.splits)

lemma DequeueBestOpenNode_Inr:
  "DequeueBestOpenNode M s = Inr s' \<longleftrightarrow>
     (\<exists>item q. CBinaryHeapT_Shift M (open_queue s) = Inr (item, q) \<and> s' = s\<lparr>open_queue := q\<rparr>)"
  by (auto simp: DequeueBestOpenNode_def dbg_assert_def CBinaryHeapT_IsEmpty_def Shift_Nil
           split: sum.splits prod.splits)

lemma PopAlreadyDequeuedOpenNode_Inr:
  "PopAlreadyDequeuedOpenNode k s = Inr (item, s') \<longleftrightarrow>
     (\<exists>tbl. HashTable_Pop k (open_nodes s) = Inr (item, tbl) \<and> s' = s\<lparr>open_nodes := tbl\<rparr>)"
  by (auto simp: PopAlreadyDequeuedOpenNode_def split: sum.splits prod.splits)

lemma PopOpenNode_Inr:
  "PopOpenNode M k s = Inr (item, s') \<longleftrightarrow>
     (\<exists>tbl i q. HashTable_Pop k (open_nodes s) = Inr (item, tbl) \<and>
        CBinaryHeapT_FindIndex item (open_queue s) = Inr i \<and>
        CBinaryHeapT_Remove M i (open_queue s) = Inr q \<and>
        s' = s\<lparr>open_nodes := tbl, open_queue := q\<rparr>)"
  by (auto simp: PopOpenNode_def split: sum.splits prod.splits)

lemma discard_result_Inr: "discard_result r = Inr s' \<longleftrightarrow> (\<exists>x. r = Inr (x, s'))"
  by (auto simp: discard_result_def split: sum.splits)

lemma CreateNewNode_eq:
  "CreateNewNode s =
     (case new_node s of
        None \<Rightarrow> (items s, s\<lparr>items := Suc (items s), new_node := Some (items s)\<rparr>)
      | Some p \<Rightarrow> (p, s))"
  by (simp add: CreateNewNode_def BumpAllocContainer_New_def split: option.splits)

text \<open>
  One case for every call that succeeds; a proof about all calls opens with this rule.
\<close>

lemma call_cases [consumes 1, case_names Create Found InsertOpen GetBest PopBestNone PopBestSome
    Dequeue Reenqueue PopDequeued PopOpen InsertClosed]:
  assumes "call M c s = Inr s'"
  obtains
    "c = Call_CreateNewNode" "s' = snd (CreateNewNode s)"
  | item where "c = Call_FoundBestNode item" "s' = FoundBestNode item s"
  | item where "c = Call_InsertOpenNode item" "InsertOpenNode M item s = Inr s'"
  | "c = Call_GetBestOpenNode" "s' = s"
  | "c = Call_PopBestOpenNode" "open_queue s = []" "s' = s"
  | item where "c = Call_PopBestOpenNode" "PopBestOpenNode M s = Inr (Some item, s')"
  | "c = Call_DequeueBestOpenNode" "DequeueBestOpenNode M s = Inr s'"
  | item where "c = Call_ReenqueueOpenNode item" "s' = ReenqueueOpenNode M item s"
  | k item where "c = Call_PopAlreadyDequeuedOpenNode k" "PopAlreadyDequeuedOpenNode k s = Inr (item, s')"
  | k item where "c = Call_PopOpenNode k" "PopOpenNode M k s = Inr (item, s')"
  | item where "c = Call_InsertClosedNode item" "InsertClosedNode M item s = Inr s'"
proof (cases c)
  case Call_GetBestOpenNode
  with assms have "s' = s" by (simp add: GetBestOpenNode_eq discard_result_def)
  with Call_GetBestOpenNode that(4) show ?thesis by blast
next
  case Call_PopBestOpenNode
  with assms obtain x where x: "PopBestOpenNode M s = Inr (x, s')" by (auto simp: discard_result_Inr)
  show ?thesis
  proof (cases x)
    case None
    with x have "open_queue s = []" "s' = s" by (simp_all add: PopBestOpenNode_None)
    with Call_PopBestOpenNode that(5) show ?thesis by blast
  next
    case (Some item)
    with x Call_PopBestOpenNode that(6) show ?thesis by blast
  qed
qed (use assms that in \<open>auto simp: discard_result_Inr\<close>)

subsection \<open>Invariants of the reachable states\<close>

lemma int_cast_small: "n < 2 ^ 31 \<Longrightarrow> int_cast n = int n"
proof -
  assume n: "n < 2 ^ 31"
  have "signed_take_bit 31 (int n) = int n"
    by (rule signed_take_bit_int_eq_self) (use n in simp_all)
  then show ?thesis by (simp add: int_cast_def signed_of_nat)
qed

lemma FoundBestNode_fields [simp]:
  "open_nodes (FoundBestNode item s) = open_nodes s"
  "closed_nodes (FoundBestNode item s) = closed_nodes s"
  "open_queue (FoundBestNode item s) = open_queue s"
  "items (FoundBestNode item s) = items s"
  by (simp_all add: FoundBestNode_def)

lemma CreateNewNode_fields [simp]:
  "open_nodes (snd (CreateNewNode s)) = open_nodes s"
  "closed_nodes (snd (CreateNewNode s)) = closed_nodes s"
  "open_queue (snd (CreateNewNode s)) = open_queue s"
  by (simp_all add: CreateNewNode_eq split: option.splits)

lemma ReenqueueOpenNode_fields [simp]:
  "open_nodes (ReenqueueOpenNode M item s) = open_nodes s"
  "closed_nodes (ReenqueueOpenNode M item s) = closed_nodes s"
  "open_queue (ReenqueueOpenNode M item s) = CBinaryHeapT_Include M item (open_queue s)"
  "items (ReenqueueOpenNode M item s) = items s"
  "new_node (ReenqueueOpenNode M item s) = new_node s"
  by (simp_all add: ReenqueueOpenNode_def)

lemma call_disjoint: 
  assumes "call M c s = Inr s'" "disjoint_inv s"
  shows "disjoint_inv s'"
  using assms
  by (cases rule: call_cases)
     (auto simp: disjoint_inv_def InsertOpenNode_Inr InsertClosedNode_Inr PopBestOpenNode_Some
        DequeueBestOpenNode_Inr PopAlreadyDequeuedOpenNode_Inr PopOpenNode_Inr Pop_result)

lemma call_distinct:
  assumes "call M c s = Inr s'" "distinct_inv s"
  shows "distinct_inv s'"
  using assms
  by (cases rule: call_cases)
     (auto simp: distinct_inv_def InsertOpenNode_Inr InsertClosedNode_Inr PopBestOpenNode_Some
        DequeueBestOpenNode_Inr PopAlreadyDequeuedOpenNode_Inr PopOpenNode_Inr Pop_result
        keys_of_def distinct_keys_filter)

lemma reachable_disjoint: "reachable s \<Longrightarrow> disjoint_inv s"
proof (induction rule: reachable.induct)
  case reachable_init
  show ?case by (simp add: disjoint_inv_def NodeList_init_def)
next
  case (reachable_call s M c s')
  then show ?case by (blast intro: call_disjoint)
qed

lemma reachable_distinct: "reachable s \<Longrightarrow> distinct_inv s"
proof (induction rule: reachable.induct)
  case reachable_init
  show ?case by (simp add: distinct_inv_def NodeList_init_def)
next
  case (reachable_call s M c s')
  then show ?case by (blast intro: call_distinct)
qed

lemma run_reachable: "reachable s \<Longrightarrow> run tr s = Inr s' \<Longrightarrow> reachable s'"
proof (induction tr arbitrary: s)
  case Nil
  then show ?case by simp
next
  case (Cons a tr)
  obtain M c where a: "a = (M, c)" by (cases a)
  from Cons.prems(2) a obtain s1 where s1: "call M c s = Inr s1" "run tr s1 = Inr s'"
    by (auto split: sum.splits)
  from Cons.prems(1) s1(1) have r: "reachable s1" by (rule reachable_call)
  show ?case by (rule Cons.IH [OF r s1(2)])
qed

lemma paired_reachable_reachable: "paired_reachable s \<Longrightarrow> reachable s"
proof (induction rule: paired_reachable.induct)
  case paired_init
  show ?case by (rule reachable_init)
next
  case (paired_call s c M s')
  then show ?case by (blast intro: reachable_call)
next
  case (paired_dequeue_pop s M s1 k item s')
  have "call M Call_DequeueBestOpenNode s = Inr s1" using paired_dequeue_pop by simp
  with paired_dequeue_pop have "reachable s1" by (blast intro: reachable_call)
  moreover have "call M (Call_PopAlreadyDequeuedOpenNode k) s1 = Inr s'"
    using paired_dequeue_pop by (simp add: discard_result_def)
  ultimately show ?case by (rule reachable_call)
next
  case (paired_dequeue_reenqueue s M s1 M' item s')
  have "call M Call_DequeueBestOpenNode s = Inr s1" using paired_dequeue_reenqueue by simp
  with paired_dequeue_reenqueue have "reachable s1" by (blast intro: reachable_call)
  moreover have "call M' (Call_ReenqueueOpenNode item) s1 = Inr s'"
    using paired_dequeue_reenqueue by simp
  ultimately show ?case by (rule reachable_call)
qed

text \<open>The counts of the open index and of the open queue move together.\<close>

lemma call_count:
  assumes "call M c s = Inr s'" "\<not> window_call c" "distinct (map fst (open_nodes s))"
    "HashTable_Count (open_nodes s) = length (open_queue s)"
  shows "HashTable_Count (open_nodes s') = length (open_queue s')"
  using assms
proof (cases rule: call_cases)
  case (PopBestSome item)
  then obtain q p tbl where *: "CBinaryHeapT_Shift M (open_queue s) = Inr (item, q)"
     "HashTable_Pop (GetKey (M item)) (open_nodes s) = Inr (p, tbl)"
     "s' = s\<lparr>open_queue := q, open_nodes := tbl\<rparr>"
    by (auto simp: PopBestOpenNode_Some)
  from Shift_result[OF *(1)] Pop_count[OF assms(3) *(2)] assms(4) *(3) show ?thesis by simp
next
  case (PopOpen k item)
  then obtain tbl i q where *: "HashTable_Pop k (open_nodes s) = Inr (item, tbl)"
     "CBinaryHeapT_Remove M i (open_queue s) = Inr q" "s' = s\<lparr>open_nodes := tbl, open_queue := q\<rparr>"
    by (auto simp: PopOpenNode_Inr)
  from Remove_result[OF *(2)] Pop_count[OF assms(3) *(1)] assms(4) *(3) show ?thesis by simp
qed (auto simp: InsertOpenNode_Inr InsertClosedNode_Inr HashTable_Count_def)

lemma paired_reachable_count:
  "paired_reachable s \<Longrightarrow> HashTable_Count (open_nodes s) = length (open_queue s)"
proof (induction rule: paired_reachable.induct)
  case paired_init
  show ?case by (simp add: NodeList_init_def HashTable_Count_def)
next
  case (paired_call s c M s')
  have "distinct (map fst (open_nodes s))"
    using reachable_distinct[OF paired_reachable_reachable[OF paired_call(1)]]
    by (simp add: distinct_inv_def)
  with paired_call show ?case by (blast intro: call_count)
next
  case (paired_dequeue_pop s M s1 k item s')
  have d: "distinct (map fst (open_nodes s))"
    using reachable_distinct[OF paired_reachable_reachable[OF paired_dequeue_pop(1)]]
    by (simp add: distinct_inv_def)
  from paired_dequeue_pop(2) obtain b q where 1: "CBinaryHeapT_Shift M (open_queue s) = Inr (b, q)"
    "s1 = s\<lparr>open_queue := q\<rparr>" by (auto simp: DequeueBestOpenNode_Inr)
  from paired_dequeue_pop(3) obtain tbl where 2: "HashTable_Pop k (open_nodes s1) = Inr (item, tbl)"
    "s' = s1\<lparr>open_nodes := tbl\<rparr>" by (auto simp: PopAlreadyDequeuedOpenNode_Inr)
  from 2(1) 1(2) have "HashTable_Pop k (open_nodes s) = Inr (item, tbl)" by simp
  from Pop_count[OF d this] Shift_result[OF 1(1)] paired_dequeue_pop.IH 1(2) 2(2)
  show ?case by simp
next
  case (paired_dequeue_reenqueue s M s1 M' item s')
  from paired_dequeue_reenqueue(2) obtain b q where 1: "CBinaryHeapT_Shift M (open_queue s) = Inr (b, q)"
    "s1 = s\<lparr>open_queue := q\<rparr>" by (auto simp: DequeueBestOpenNode_Inr)
  from Shift_result[OF 1(1)] paired_dequeue_reenqueue.IH 1(2) paired_dequeue_reenqueue(3)
  show ?case by auto
qed

text \<open>Indexed nodes are nodes of the arena, each indexed once.\<close>

lemma indexed_simps [simp]:
  "indexed (s\<lparr>open_nodes := tbl\<rparr>) = set tbl \<union> set (closed_nodes s)"
  "indexed (s\<lparr>closed_nodes := tbl\<rparr>) = set (open_nodes s) \<union> set tbl"
  "indexed (s\<lparr>open_queue := q\<rparr>) = indexed s"
  "indexed (s\<lparr>new_node := n\<rparr>) = indexed s"
  "indexed (s\<lparr>items := a\<rparr>) = indexed s"
  by (simp_all add: indexed_def)

lemma arena_inv_mono:
  assumes "arena_inv M s" "indexed s' \<subseteq> indexed s"
    "BumpAllocContainer_Length (items s) \<le> BumpAllocContainer_Length (items s')"
  shows "arena_inv M s'"
  unfolding arena_inv_def
proof
  fix e assume "e \<in> indexed s'"
  with assms(2) have "e \<in> indexed s" by blast
  with assms(1) have "snd e < BumpAllocContainer_Length (items s)" "GetKey (M (snd e)) = fst e"
    by (simp_all add: arena_inv_def)
  with assms(3) show "snd e < BumpAllocContainer_Length (items s') \<and> GetKey (M (snd e)) = fst e" by simp
qed

lemma arena_inv_insert:
  assumes "arena_inv M s" "indexed s' = insert (GetKey (M item), item) (indexed s)"
    "items s' = items s" "item < BumpAllocContainer_Length (items s)"
  shows "arena_inv M s'"
  unfolding arena_inv_def
proof
  fix e assume "e \<in> indexed s'"
  with assms(2) have "e = (GetKey (M item), item) \<or> e \<in> indexed s" by blast
  then show "snd e < BumpAllocContainer_Length (items s') \<and> GetKey (M (snd e)) = fst e"
  proof
    assume "e = (GetKey (M item), item)"
    with assms(3,4) show ?thesis by simp
  next
    assume "e \<in> indexed s"
    with assms(1,3) show ?thesis by (simp add: arena_inv_def)
  qed
qed

lemma call_arena:
  assumes "call M c s = Inr s'" "arena_args c s" "arena_inv M s"
  shows "arena_inv M s'"
  using assms(1)
proof (cases rule: call_cases)
  case Create
  have "indexed s' \<subseteq> indexed s" "BumpAllocContainer_Length (items s) \<le> BumpAllocContainer_Length (items s')"
    unfolding Create(2)
    by (simp_all add: CreateNewNode_eq BumpAllocContainer_Length_def indexed_def split: option.splits)
  with assms(3) show ?thesis by (rule arena_inv_mono)
next
  case (InsertOpen item)
  then have "indexed s' = insert (GetKey (M item), item) (indexed s)" "items s' = items s"
    by (auto simp: InsertOpenNode_Inr indexed_def)
  moreover have "item < BumpAllocContainer_Length (items s)" using assms(2) InsertOpen(1) by simp
  ultimately show ?thesis using assms(3) by (blast intro: arena_inv_insert)
next
  case (InsertClosed item)
  then have "indexed s' = insert (GetKey (M item), item) (indexed s)" "items s' = items s"
    by (auto simp: InsertClosedNode_Inr indexed_def)
  moreover have "item < BumpAllocContainer_Length (items s)" using assms(2) InsertClosed(1) by simp
  ultimately show ?thesis using assms(3) by (blast intro: arena_inv_insert)
qed (rule arena_inv_mono[OF assms(3)];
     auto simp: indexed_def FoundBestNode_def ReenqueueOpenNode_def PopBestOpenNode_Some
       DequeueBestOpenNode_Inr PopAlreadyDequeuedOpenNode_Inr PopOpenNode_Inr Pop_result)+

lemma stable_reachable_reachable: "stable_reachable ok M s \<Longrightarrow> reachable s"
  by (induction rule: stable_reachable.induct) (auto intro: reachable.intros)

lemma arena_reachable_inv: "stable_reachable arena_args M s \<Longrightarrow> arena_inv M s"
proof (induction rule: stable_reachable.induct)
  case (stable_init M)
  show ?case by (simp add: arena_inv_def indexed_def NodeList_init_def)
next
  case (stable_write M s M')
  then show ?case by (auto simp: arena_inv_def)
next
  case (stable_call M s c s')
  then show ?case by (blast intro: call_arena)
qed

subsection \<open>The order of extraction\<close>

lemma call_heap:
  assumes "call M c s = Inr s'" "heap_inv (cost M) (open_queue s)"
  shows "heap_inv (cost M) (open_queue s')"
  using assms
  by (cases rule: call_cases)
     (auto simp: InsertOpenNode_Inr InsertClosedNode_Inr PopBestOpenNode_Some
        DequeueBestOpenNode_Inr PopAlreadyDequeuedOpenNode_Inr PopOpenNode_Inr
        intro: Include_heap Shift_heap Remove_heap)

lemma PopBestAll_Inl: "PopBestOpenNode M s = Inl e \<Longrightarrow> PopBestAll M s = ([], Inl e)"
  by (subst PopBestAll.simps) simp

lemma PopBestAll_None: "open_queue s = [] \<Longrightarrow> PopBestAll M s = ([], Inr s)"
proof -
  assume "open_queue s = []"
  then have "PopBestOpenNode M s = Inr (None, s)" by (simp add: PopBestOpenNode_None)
  then show ?thesis by (subst PopBestAll.simps) simp
qed

lemma PopBestAll_Some:
  "PopBestOpenNode M s = Inr (Some item, s') \<Longrightarrow>
   PopBestAll M s = (item # fst (PopBestAll M s'), snd (PopBestAll M s'))"
  by (subst PopBestAll.simps) (simp split: prod.splits)

lemma PopBestOpenNode_cases:
  obtains e where "PopBestOpenNode M s = Inl e"
  | "open_queue s = []" "PopBestOpenNode M s = Inr (None, s)"
  | item s' where "open_queue s \<noteq> []" "PopBestOpenNode M s = Inr (Some item, s')"
proof (cases "PopBestOpenNode M s")
  case (Inl e)
  then show ?thesis by (rule that(1))
next
  case (Inr x)
  obtain r s' where x: "x = (r, s')" by (cases x)
  show ?thesis
  proof (cases r)
    case None
    with Inr x have "open_queue s = []" "s' = s" by (simp_all add: PopBestOpenNode_None)
    with Inr x None show ?thesis by (intro that(2)) simp_all
  next
    case (Some item)
    with Inr x have p: "PopBestOpenNode M s = Inr (Some item, s')" by simp
    then have "open_queue s \<noteq> []" by (auto simp: PopBestOpenNode_Some Shift_Nil)
    then show ?thesis using p by (rule that(3))
  qed
qed

lemma PopBestAll_sorted:
  assumes "heap_inv (cost M) (open_queue s)"
  shows "sorted (map (cost M) (fst (PopBestAll M s))) \<and>
         mset (fst (PopBestAll M s)) \<subseteq># mset (open_queue s) \<and>
         (\<forall>s'. snd (PopBestAll M s) = Inr s' \<longrightarrow>
            mset (fst (PopBestAll M s)) = mset (open_queue s) \<and> open_queue s' = [])"
  using assms
proof (induction "length (open_queue s)" arbitrary: s rule: less_induct)
  case less
  show ?case
  proof (cases rule: PopBestOpenNode_cases[of M s])
    case (1 e)
    then show ?thesis by (simp add: PopBestAll_Inl)
  next
    case 2
    then show ?thesis by (simp add: PopBestAll_None)
  next
    case (3 item s')
    from 3(2) obtain q p tbl where *: "CBinaryHeapT_Shift M (open_queue s) = Inr (item, q)"
      "s' = s\<lparr>open_queue := q, open_nodes := tbl\<rparr>"
      by (auto simp: PopBestOpenNode_Some)
    from Shift_result[OF *(1)] *(2)
    have m: "mset (open_queue s) = add_mset item (mset (open_queue s'))"
      and l: "length (open_queue s') < length (open_queue s)" by simp_all
    have h: "heap_inv (cost M) (open_queue s')" using Shift_heap[OF less.prems *(1)] *(2) by simp
    note IH = less.hyps[OF l h]
    let ?ps = "fst (PopBestAll M s')"
    have "\<forall>y \<in> set ?ps. cost M item \<le> cost M y"
    proof
      fix y assume "y \<in> set ?ps"
      then have "y \<in># mset (open_queue s')" using IH by (metis mset_subset_eqD set_mset_mset)
      then have "y \<in> set (open_queue s)" using m by (metis set_mset_mset union_single_eq_member insert_iff set_mset_add_mset_insert)
      with less.prems *(1) show "cost M item \<le> cost M y" by (rule Shift_min)
    qed
    then show ?thesis using IH m by (simp add: PopBestAll_Some[OF 3(2)])
  qed
qed

subsection \<open>The paired open set\<close>

lemma open_paired_init: "open_paired M NodeList_init"
  by (simp add: open_paired_def NodeList_init_def)

lemma InsertOpenNode_paired:
  assumes "InsertOpenNode M item s = Inr s'" "open_paired M s"
  shows "open_paired M s'"
  using assms by (auto simp: InsertOpenNode_Inr open_paired_def keys_of_def entry_def)

lemma open_paired_Find:
  assumes "open_paired M s" "p \<in> set (open_queue s)"
  shows "HashTable_Find (open_nodes s) (GetKey (M p)) = Some p"
proof -
  from assms(2) have "entry M p \<in># mset (map (entry M) (open_queue s))" by simp
  with assms(1) have "entry M p \<in> set (open_nodes s)" by (simp add: open_paired_def)
  with assms(1) show ?thesis by (simp add: open_paired_def entry_def Find_Some_distinct)
qed

lemma open_paired_wf: "open_paired M s \<Longrightarrow> heap_inv (cost M) (open_queue s) \<Longrightarrow> open_wf M s"
  by (simp add: open_wf_def open_paired_Find) (simp add: open_paired_def)

lemma open_paired_remove:
  assumes "open_paired M s" "mset (open_queue s) = add_mset item (mset q)"
    and "HashTable_Pop (GetKey (M item)) (open_nodes s) = Inr (p, tbl)"
    and "open_queue s' = q" "open_nodes s' = tbl"
  shows "open_paired M s'"
proof -
  have d: "distinct (map fst (open_nodes s))" using assms(1) by (simp add: open_paired_def)
  have "item \<in> set (open_queue s)" using assms(2) by (metis set_mset_mset union_single_eq_member)
  from open_paired_Find[OF assms(1) this] assms(3) have p: "p = item" by (simp add: Pop_result)
  from assms(2) have "mset (map (entry M) (open_queue s)) =
      add_mset (entry M item) (mset (map (entry M) q))"
    by (metis image_mset_add_mset mset_map)
  then have a: "mset (open_nodes s) = add_mset (entry M item) (mset (map (entry M) q))"
    using assms(1) by (simp only: open_paired_def)
  have b: "mset (open_nodes s) = add_mset (entry M item) (mset tbl)"
    using Pop_count[OF d assms(3)] unfolding p by (simp only: entry_def)
  have "add_mset (entry M item) (mset (map (entry M) q)) = add_mset (entry M item) (mset tbl)"
    using a b by (rule trans[OF sym])
  then have "mset (map (entry M) q) = mset tbl" by (simp only: add_mset_add_mset_same_iff)
  moreover have "distinct (map fst tbl)"
    using d assms(3) by (auto simp: Pop_result distinct_keys_filter)
  ultimately show ?thesis using assms(4,5) by (simp add: open_paired_def)
qed

lemma PopBestOpenNode_paired:
  assumes "open_paired M s" "open_queue s \<noteq> []"
  shows "\<exists>item s'. PopBestOpenNode M s = Inr (Some item, s') \<and> open_paired M s'"
proof -
  from assms(2) obtain x xs where q: "open_queue s = x # xs" by (cases "open_queue s") auto
  then obtain q' where sh: "CBinaryHeapT_Shift M (open_queue s) = Inr (x, q')"
    by (simp add: CBinaryHeapT_Shift_def)
  let ?k = "GetKey (M x)"
  let ?tbl = "filter (\<lambda>e. fst e \<noteq> ?k) (open_nodes s)"
  let ?s' = "s\<lparr>open_queue := q', open_nodes := ?tbl\<rparr>"
  have f: "HashTable_Find (open_nodes s) ?k = Some x"
    using assms(1) q by (intro open_paired_Find) simp_all
  then have pop: "HashTable_Pop ?k (open_nodes s) = Inr (x, ?tbl)" by (simp add: Pop_result)
  have m: "mset (open_queue s) = add_mset x (mset q')" using Shift_result[OF sh] by simp
  have "open_paired M ?s'" by (rule open_paired_remove[OF assms(1) m pop]) simp_all
  moreover have "PopBestOpenNode M s = Inr (Some x, ?s')"
    using sh pop by (auto simp: PopBestOpenNode_Some)
  ultimately show ?thesis by blast
qed

lemma call_paired:
  assumes "call M c s = Inr s'" "\<not> window_call c" "open_paired M s"
  shows "open_paired M s'"
  using assms(1)
proof (cases rule: call_cases)
  case (InsertOpen item)
  with assms(3) show ?thesis by (blast intro: InsertOpenNode_paired)
next
  case (PopBestSome item)
  then have "open_queue s \<noteq> []" by (auto simp: PopBestOpenNode_Some Shift_Nil)
  from PopBestOpenNode_paired[OF assms(3) this] PopBestSome(2) show ?thesis by auto
next
  case (PopOpen k item)
  then obtain tbl i q where *: "HashTable_Pop k (open_nodes s) = Inr (item, tbl)"
     "CBinaryHeapT_FindIndex item (open_queue s) = Inr i"
     "CBinaryHeapT_Remove M i (open_queue s) = Inr q" "s' = s\<lparr>open_nodes := tbl, open_queue := q\<rparr>"
    by (auto simp: PopOpenNode_Inr)
  from FindIndex_result[OF *(2)] Remove_result[OF *(3)]
  have m: "mset (open_queue s) = add_mset item (mset q)" by simp
  then have "item \<in> set (open_queue s)" by (metis set_mset_mset union_single_eq_member)
  from open_paired_Find[OF assms(3) this] have f: "HashTable_Find (open_nodes s) (GetKey (M item)) = Some item" .
  from *(1) have "(k, item) \<in> set (open_nodes s)" by (simp add: Pop_result Find_Some_mem)
  moreover have "(GetKey (M item), item) \<in> set (open_nodes s)" using f by (rule Find_Some_mem)
  moreover have "set (open_nodes s) = entry M ` set (open_queue s)"
    using assms(3) by (metis open_paired_def set_mset_mset set_map)
  ultimately have "k = GetKey (M item)" by (auto simp: entry_def)
  with *(1) have pop: "HashTable_Pop (GetKey (M item)) (open_nodes s) = Inr (item, tbl)" by simp
  show ?thesis by (rule open_paired_remove[OF assms(3) m pop]) (simp_all add: *(4))
qed (use assms(2,3) in \<open>auto simp: open_paired_def FoundBestNode_def InsertClosedNode_Inr
       CreateNewNode_eq split: option.splits\<close>)

lemma heap_inv_cong:
  assumes "\<forall>x \<in> set xs. c' x = c x"
  shows "heap_inv c' xs = heap_inv c xs"
proof -
  have "\<And>i. i < length xs \<Longrightarrow> c' (xs ! i) = c (xs ! i)" using assms by simp
  moreover have "\<And>i. i < length xs \<Longrightarrow> (i - 1) div 2 < length xs" by arith
  ultimately show ?thesis unfolding heap_inv_def by (metis (no_types, lifting))
qed

lemma stable_reachable_heap: "stable_reachable ok M s \<Longrightarrow> heap_inv (cost M) (open_queue s)"
proof (induction rule: stable_reachable.induct)
  case (stable_init M)
  show ?case by (simp add: NodeList_init_def)
next
  case (stable_write M s M')
  then have "\<forall>p \<in> set (open_queue s). cost M' p = cost M p" by (simp add: cost_def)
  from heap_inv_cong[OF this] stable_write.IH show ?case by simp
next
  case (stable_call M s c s')
  then show ?case by (blast intro: call_heap)
qed

lemma stable_reachable_paired: "stable_reachable no_window M s \<Longrightarrow> open_paired M s"
proof (induction rule: stable_reachable.induct)
  case (stable_init M)
  show ?case by (rule open_paired_init)
next
  case (stable_write M s M')
  then have "map (entry M') (open_queue s) = map (entry M) (open_queue s)"
    by (simp add: entry_def)
  with stable_write.IH show ?case by (simp only: open_paired_def)
next
  case (stable_call M s c s')
  then show ?case by (auto simp: no_window_def intro: call_paired)
qed

lemma run_stable:
  "stable_reachable ok M s \<Longrightarrow> \<forall>c \<in> set cs. \<forall>t. ok c t \<Longrightarrow> run (map (Pair M) cs) s = Inr s' \<Longrightarrow>
   stable_reachable ok M s'"
proof (induction cs arbitrary: s)
  case Nil
  then show ?case by simp
next
  case (Cons c cs)
  from Cons.prems(3) obtain s1 where s1: "call M c s = Inr s1" "run (map (Pair M) cs) s1 = Inr s'"
    by (auto split: sum.splits)
  from Cons.prems(2) have "ok c s" by simp
  with Cons.prems(1) s1(1) have "stable_reachable ok M s1" by (blast intro: stable_call)
  moreover from Cons.prems(2) have "\<forall>c \<in> set cs. \<forall>t. ok c t" by simp
  ultimately show ?case using s1(2) by (rule Cons.IH)
qed

lemma PopBestAll_paired:
  assumes "open_paired M s"
  shows "\<exists>s'. snd (PopBestAll M s) = Inr s' \<and> open_nodes s' = [] \<and> open_queue s' = []"
  using assms
proof (induction "length (open_queue s)" arbitrary: s rule: less_induct)
  case less
  show ?case
  proof (cases "open_queue s = []")
    case True
    with less.prems have "open_nodes s = []" by (simp add: open_paired_def)
    with True show ?thesis by (simp add: PopBestAll_None)
  next
    case False
    from PopBestOpenNode_paired[OF less.prems False] obtain item s'
      where p: "PopBestOpenNode M s = Inr (Some item, s')" and o: "open_paired M s'" by blast
    from p obtain q tbl where *: "CBinaryHeapT_Shift M (open_queue s) = Inr (item, q)"
      "s' = s\<lparr>open_queue := q, open_nodes := tbl\<rparr>"
      by (auto simp: PopBestOpenNode_Some)
    from Shift_result[OF *(1)] *(2) have "length (open_queue s') < length (open_queue s)" by simp
    from less.hyps[OF this o] show ?thesis by (simp add: PopBestAll_Some[OF p])
  qed
qed

subsection \<open>Further facts about sequences of calls\<close>

lemma call_new_node:
  assumes "call M c s = Inr s'" "\<not> clears_new_node c" "new_node s = Some p"
  shows "new_node s' = Some p \<and> items s' = items s"
  using assms
  by (cases rule: call_cases)
     (auto simp: CreateNewNode_eq InsertClosedNode_Inr PopBestOpenNode_Some
        DequeueBestOpenNode_Inr PopAlreadyDequeuedOpenNode_Inr PopOpenNode_Inr)

lemma run_new_node:
  "run tr s = Inr s' \<Longrightarrow> \<forall>tc \<in> set tr. \<not> clears_new_node (snd tc) \<Longrightarrow> new_node s = Some p \<Longrightarrow>
   new_node s' = Some p \<and> items s' = items s"
proof (induction tr arbitrary: s)
  case Nil
  then show ?case by simp
next
  case (Cons a tr)
  obtain M c where a: "a = (M, c)" by (cases a)
  from Cons.prems(1) a obtain s1 where s1: "call M c s = Inr s1" "run tr s1 = Inr s'"
    by (auto split: sum.splits)
  from Cons.prems(2) a have nc: "\<not> clears_new_node c" by simp
  from call_new_node[OF s1(1) nc Cons.prems(3)] have 1: "new_node s1 = Some p" "items s1 = items s"
    by simp_all
  from Cons.prems(2) have "\<forall>tc \<in> set tr. \<not> clears_new_node (snd tc)" by simp
  from Cons.IH[OF s1(2) this 1(1)] 1(2) show ?case by simp
qed

lemma call_closed_keys:
  assumes "call M c s = Inr s'"
  shows "keys_of (closed_nodes s) \<subseteq> keys_of (closed_nodes s')"
  using assms
  by (cases rule: call_cases)
     (auto simp: InsertOpenNode_Inr InsertClosedNode_Inr PopBestOpenNode_Some
        DequeueBestOpenNode_Inr PopAlreadyDequeuedOpenNode_Inr PopOpenNode_Inr)

lemma run_closed_keys:
  "run tr s = Inr s' \<Longrightarrow> keys_of (closed_nodes s) \<subseteq> keys_of (closed_nodes s')"
proof (induction tr arbitrary: s)
  case Nil
  then show ?case by simp
next
  case (Cons a tr)
  obtain M c where a: "a = (M, c)" by (cases a)
  from Cons.prems a obtain s1 where s1: "call M c s = Inr s1" "run tr s1 = Inr s'"
    by (auto split: sum.splits)
  from call_closed_keys[OF s1(1)] Cons.IH[OF s1(2)] show ?case by blast
qed

lemma run_paired:
  "paired_reachable s \<Longrightarrow> \<forall>tc \<in> set tr. \<not> window_call (snd tc) \<Longrightarrow> run tr s = Inr s' \<Longrightarrow>
   paired_reachable s'"
proof (induction tr arbitrary: s)
  case Nil
  then show ?case by simp
next
  case (Cons a tr)
  obtain M c where a: "a = (M, c)" by (cases a)
  from Cons.prems(3) a obtain s1 where s1: "call M c s = Inr s1" "run tr s1 = Inr s'"
    by (auto split: sum.splits)
  from Cons.prems(2) a have "\<not> window_call c" by simp
  with Cons.prems(1) s1(1) have "paired_reachable s1" by (blast intro: paired_call)
  moreover from Cons.prems(2) have "\<forall>tc \<in> set tr. \<not> window_call (snd tc)" by simp
  ultimately show ?case using s1(2) by (rule Cons.IH)
qed

lemma indexed_exact:
  assumes "arena_inv M s" "distinct_inv s" "disjoint_inv s"
  shows "BumpAllocContainer_Length (items s) =
         HashTable_Count (open_nodes s) + HashTable_Count (closed_nodes s) +
         card {p. p < BumpAllocContainer_Length (items s) \<and> p \<notin> snd ` indexed s}"
proof -
  let ?es = "open_nodes s @ closed_nodes s"
  let ?n = "BumpAllocContainer_Length (items s)"
  have set_es: "set ?es = indexed s" by (simp add: indexed_def)
  have dk: "distinct (map fst ?es)"
    using assms(2,3) by (auto simp: distinct_inv_def disjoint_inv_def keys_of_def)
  have key: "\<And>e. e \<in> set ?es \<Longrightarrow> fst e = GetKey (M (snd e))"
    using assms(1) by (auto simp: arena_inv_def indexed_def)
  have inj: "inj_on snd (set ?es)"
  proof (rule inj_onI)
    fix e e' assume e: "e \<in> set ?es" "e' \<in> set ?es" "snd e = snd e'"
    then have "fst e = fst e'" using key[of e] key[of e'] by simp
    with e(3) show "e = e'" by (simp add: prod_eq_iff)
  qed
  have de: "distinct ?es" using dk by (rule distinct_map[THEN iffD1, THEN conjunct1])
  have "distinct (map snd ?es)" using de inj by (simp only: distinct_map simp_thms)
  then have len: "length ?es = card (snd ` indexed s)"
    by (metis distinct_card length_map set_map set_es)
  have sub: "snd ` indexed s \<subseteq> {..<?n}"
    using assms(1) by (auto simp: arena_inv_def)
  have "{p. p < ?n \<and> p \<notin> snd ` indexed s} = {..<?n} - snd ` indexed s" by auto
  then have "card {p. p < ?n \<and> p \<notin> snd ` indexed s} = card {..<?n} - card (snd ` indexed s)"
    using sub by (simp add: card_Diff_subset finite_subset[OF sub])
  moreover have "card (snd ` indexed s) \<le> card {..<?n}" using sub by (intro card_mono) simp_all
  ultimately show ?thesis using len by (simp add: HashTable_Count_def)
qed

text \<open>
  \<open>InsertOpenNode\<close> takes any node. A node that is not a node of the arena is counted
  by \<open>OpenCount\<close> and not by \<open>TotalCount\<close>; here the arena is empty and the node at
  address 7 lives elsewhere.
\<close>

lemma node_outside_arena:
  "InsertOpenNode example_memory 7 NodeList_init =
     Inr \<lparr>items = 0, open_nodes = [(7, 7)], closed_nodes = [], open_queue = [7], new_node = None\<rparr> \<and>
   TotalCount (\<lparr>items = 0, open_nodes = [(7, 7)], closed_nodes = [], open_queue = [7],
                 new_node = None\<rparr> :: nat NodeList) = 0 \<and>
   OpenCount (\<lparr>items = 0, open_nodes = [(7, 7)], closed_nodes = [], open_queue = [7],
                new_node = None\<rparr> :: nat NodeList) = 1"
proof -
  have "InsertOpenNode example_memory 7 NodeList_init =
     Inr \<lparr>items = 0, open_nodes = [(7, 7)], closed_nodes = [], open_queue = [7], new_node = None\<rparr>"
    by code_simp
  then show ?thesis
    by (simp add: TotalCount_def OpenCount_def BumpAllocContainer_Length_def HashTable_Count_def int_cast_def)
qed

subsection \<open>Counting the entries of the open index and of the open queue\<close>

lemma call_count_step:
  assumes "call M c s = Inr s'" "distinct (map fst (open_nodes s))"
  shows "int (HashTable_Count (open_nodes s')) - int (length (open_queue s')) =
         int (HashTable_Count (open_nodes s)) - int (length (open_queue s)) +
         (if dequeue_call c then 1 else 0) - (if closing_call c then 1 else 0)"
  using assms(1)
proof (cases rule: call_cases)
  case (PopBestSome item)
  then obtain q p tbl where *: "CBinaryHeapT_Shift M (open_queue s) = Inr (item, q)"
     "HashTable_Pop (GetKey (M item)) (open_nodes s) = Inr (p, tbl)"
     "s' = s\<lparr>open_queue := q, open_nodes := tbl\<rparr>"
    by (auto simp: PopBestOpenNode_Some)
  from Shift_result[OF *(1)] Pop_count[OF assms(2) *(2)] *(3) PopBestSome(1) show ?thesis by simp
next
  case (PopOpen k item)
  then obtain tbl i q where *: "HashTable_Pop k (open_nodes s) = Inr (item, tbl)"
     "CBinaryHeapT_Remove M i (open_queue s) = Inr q" "s' = s\<lparr>open_nodes := tbl, open_queue := q\<rparr>"
    by (auto simp: PopOpenNode_Inr)
  from Remove_result[OF *(2)] Pop_count[OF assms(2) *(1)] *(3) PopOpen(1) show ?thesis by simp
next
  case Dequeue
  then obtain b q where *: "CBinaryHeapT_Shift M (open_queue s) = Inr (b, q)" "s' = s\<lparr>open_queue := q\<rparr>"
    by (auto simp: DequeueBestOpenNode_Inr)
  from Shift_result[OF *(1)] *(2) Dequeue(1) show ?thesis by simp
next
  case (PopDequeued k item)
  then obtain tbl where *: "HashTable_Pop k (open_nodes s) = Inr (item, tbl)" "s' = s\<lparr>open_nodes := tbl\<rparr>"
    by (auto simp: PopAlreadyDequeuedOpenNode_Inr)
  from Pop_count[OF assms(2) *(1)] *(2) PopDequeued(1) show ?thesis by simp
qed (auto simp: InsertOpenNode_Inr InsertClosedNode_Inr HashTable_Count_def)

lemma run_count:
  "reachable s \<Longrightarrow> run tr s = Inr s' \<Longrightarrow>
   int (HashTable_Count (open_nodes s')) - int (length (open_queue s')) =
   int (HashTable_Count (open_nodes s)) - int (length (open_queue s)) +
   int (dequeues tr) - int (closes tr)"
proof (induction tr arbitrary: s)
  case Nil
  then show ?case by (simp add: dequeues_def closes_def)
next
  case (Cons a tr)
  obtain M c where a: "a = (M, c)" by (cases a)
  from Cons.prems(2) a obtain s1 where s1: "call M c s = Inr s1" "run tr s1 = Inr s'"
    by (auto split: sum.splits)
  from Cons.prems(1) s1(1) have r: "reachable s1" by (rule reachable_call)
  have d: "distinct (map fst (open_nodes s))"
    using reachable_distinct[OF Cons.prems(1)] by (simp add: distinct_inv_def)
  from call_count_step[OF s1(1) d] Cons.IH[OF r s1(2)] a show ?case
    by (simp add: dequeues_def closes_def)
qed

subsection \<open>The open set while nodes are dequeued\<close>

lemma open_windowed_mem:
  assumes "open_windowed M s D" "p \<in># mset (open_queue s) + D"
  shows "HashTable_Find (open_nodes s) (GetKey (M p)) = Some p"
proof -
  from assms(2) have "entry M p \<in># image_mset (entry M) (mset (open_queue s) + D)" by auto
  with assms(1) have "entry M p \<in> set (open_nodes s)"
    by (metis open_windowed_def set_mset_mset)
  with assms(1) show ?thesis by (simp add: open_windowed_def entry_def Find_Some_distinct)
qed

lemma open_windowed_key:
  assumes "open_windowed M s D" "(k, p) \<in> set (open_nodes s)"
  shows "k = GetKey (M p)"
proof -
  from assms have "(k, p) \<in># image_mset (entry M) (mset (open_queue s) + D)"
    by (metis open_windowed_def set_mset_mset)
  then show ?thesis by (auto simp: entry_def)
qed

lemma open_windowed_pop:
  assumes "open_windowed M s D" "mset (open_queue s) + D = add_mset item R"
    and "HashTable_Pop (GetKey (M item)) (open_nodes s) = Inr (p, tbl)"
  shows "distinct (map fst tbl) \<and> mset tbl = image_mset (entry M) R \<and> p = item"
proof -
  have d: "distinct (map fst (open_nodes s))" using assms(1) by (simp add: open_windowed_def)
  have "item \<in># mset (open_queue s) + D" unfolding assms(2) by simp
  from open_windowed_mem[OF assms(1) this] assms(3) have p: "p = item" by (simp add: Pop_result)
  have a: "mset (open_nodes s) = add_mset (entry M item) (image_mset (entry M) R)"
    using assms(1) unfolding open_windowed_def assms(2) by simp
  have b: "mset (open_nodes s) = add_mset (entry M item) (mset tbl)"
    using Pop_count[OF d assms(3)] unfolding p by (simp only: entry_def)
  have "add_mset (entry M item) (image_mset (entry M) R) = add_mset (entry M item) (mset tbl)"
    using a b by (rule trans[OF sym])
  then have "image_mset (entry M) R = mset tbl" by (simp only: add_mset_add_mset_same_iff)
  moreover have "distinct (map fst tbl)"
    using d assms(3) by (auto simp: Pop_result distinct_keys_filter)
  ultimately show ?thesis using p by simp
qed

lemma PopBestOpenNode_windowed:
  assumes "open_windowed M s D" "open_queue s \<noteq> []"
  shows "\<exists>item s'. PopBestOpenNode M s = Inr (Some item, s') \<and> open_windowed M s' D \<and>
           mset (open_queue s) = add_mset item (mset (open_queue s'))"
proof -
  from assms(2) obtain x xs where q: "open_queue s = x # xs" by (cases "open_queue s") auto
  then obtain q' where sh: "CBinaryHeapT_Shift M (open_queue s) = Inr (x, q')"
    by (simp add: CBinaryHeapT_Shift_def)
  let ?k = "GetKey (M x)"
  let ?tbl = "filter (\<lambda>e. fst e \<noteq> ?k) (open_nodes s)"
  let ?s' = "s\<lparr>open_queue := q', open_nodes := ?tbl\<rparr>"
  have "x \<in># mset (open_queue s) + D" using q by simp
  from open_windowed_mem[OF assms(1) this]
  have pop: "HashTable_Pop ?k (open_nodes s) = Inr (x, ?tbl)" by (simp add: Pop_result)
  have m: "mset (open_queue s) = add_mset x (mset q')" using Shift_result[OF sh] by simp
  then have "mset (open_queue s) + D = add_mset x (mset q' + D)" by simp
  from open_windowed_pop[OF assms(1) this pop] have "open_windowed M ?s' D"
    by (simp add: open_windowed_def)
  moreover have "PopBestOpenNode M s = Inr (Some x, ?s')"
    using sh pop by (auto simp: PopBestOpenNode_Some)
  ultimately show ?thesis using m by (intro exI[of _ x] exI[of _ ?s']) simp
qed

lemma call_windowed:
  assumes "call M c s = Inr s'" "\<not> window_call c" "open_windowed M s D"
  shows "open_windowed M s' D"
  using assms(1)
proof (cases rule: call_cases)
  case (InsertOpen item)
  with assms(3) show ?thesis
    by (auto simp: InsertOpenNode_Inr open_windowed_def keys_of_def entry_def)
next
  case (PopBestSome item)
  then have "open_queue s \<noteq> []" by (auto simp: PopBestOpenNode_Some Shift_Nil)
  from PopBestOpenNode_windowed[OF assms(3) this] PopBestSome(2) show ?thesis by auto
next
  case (PopOpen k item)
  then obtain tbl i q where *: "HashTable_Pop k (open_nodes s) = Inr (item, tbl)"
     "CBinaryHeapT_FindIndex item (open_queue s) = Inr i"
     "CBinaryHeapT_Remove M i (open_queue s) = Inr q" "s' = s\<lparr>open_nodes := tbl, open_queue := q\<rparr>"
    by (auto simp: PopOpenNode_Inr)
  from FindIndex_result[OF *(2)] Remove_result[OF *(3)]
  have m: "mset (open_queue s) = add_mset item (mset q)" by simp
  from *(1) have "(k, item) \<in> set (open_nodes s)" by (simp add: Pop_result Find_Some_mem)
  from open_windowed_key[OF assms(3) this] *(1)
  have pop: "HashTable_Pop (GetKey (M item)) (open_nodes s) = Inr (item, tbl)" by simp
  from m have "mset (open_queue s) + D = add_mset item (mset q + D)" by simp
  from open_windowed_pop[OF assms(3) this pop] show ?thesis
    by (simp add: open_windowed_def *(4))
qed (use assms(2,3) in \<open>auto simp: open_windowed_def FoundBestNode_def InsertClosedNode_Inr
       CreateNewNode_eq split: option.splits\<close>)

lemma windowed_reachable_inv:
  "windowed_reachable M s D \<Longrightarrow> open_windowed M s D \<and> heap_inv (cost M) (open_queue s)"
proof (induction rule: windowed_reachable.induct)
  case (windowed_init M)
  show ?case by (simp add: open_windowed_def NodeList_init_def)
next
  case (windowed_write M s D M')
  then have w: "open_windowed M s D" and h: "heap_inv (cost M) (open_queue s)" by simp_all
  from heap_inv_cong[OF windowed_write(3)] h have h': "heap_inv (cost M') (open_queue s)" by simp
  have "\<And>p. p \<in># mset (open_queue s) + D \<Longrightarrow> entry M' p = entry M p"
  proof -
    fix p assume p: "p \<in># mset (open_queue s) + D"
    from open_windowed_mem[OF w p] have "(GetKey (M p), p) \<in> indexed s"
      by (simp add: indexed_def Find_Some_mem)
    with windowed_write(2) have "GetKey (M' p) = GetKey (M p)" by force
    then show "entry M' p = entry M p" by (simp add: entry_def)
  qed
  then have "image_mset (entry M') (mset (open_queue s) + D) =
             image_mset (entry M) (mset (open_queue s) + D)"
    by (intro image_mset_cong) simp
  with w have "open_windowed M' s D" by (simp only: open_windowed_def)
  with h' show ?case by simp
next
  case (windowed_call M s D c s')
  then show ?case by (blast intro: call_windowed call_heap)
next
  case (windowed_dequeue M s D b s')
  then have w: "open_windowed M s D" and h: "heap_inv (cost M) (open_queue s)" by simp_all
  from windowed_dequeue(3) obtain x q where *: "CBinaryHeapT_Shift M (open_queue s) = Inr (x, q)"
    "s' = s\<lparr>open_queue := q\<rparr>" by (auto simp: DequeueBestOpenNode_Inr)
  from windowed_dequeue(2) Shift_result[OF *(1)] have "x = b"
    by (auto simp: GetBestOpenNode_eq split: if_splits)
  with Shift_result[OF *(1)] have "mset (open_queue s) = add_mset b (mset q)" by simp
  then have "mset (open_queue s) + D = mset q + add_mset b D" by simp
  with w have "open_windowed M s' (add_mset b D)" by (simp add: open_windowed_def *(2))
  moreover have "heap_inv (cost M) (open_queue s')" using Shift_heap[OF h *(1)] *(2) by simp
  ultimately show ?case by simp
next
  case (windowed_reenqueue M s D b)
  then have w: "open_windowed M s D" and h: "heap_inv (cost M) (open_queue s)" by simp_all
  from windowed_reenqueue(2)
  have e1: "mset (open_queue (ReenqueueOpenNode M b s)) + (D - {#b#}) = mset (open_queue s) + D"
    by (simp add: ReenqueueOpenNode_fields Include_mset)
  have e2: "open_nodes (ReenqueueOpenNode M b s) = open_nodes s"
    by (simp add: ReenqueueOpenNode_fields)
  from w have "open_windowed M (ReenqueueOpenNode M b s) (D - {#b#})"
    by (simp only: open_windowed_def e1 e2)
  moreover have "heap_inv (cost M) (open_queue (ReenqueueOpenNode M b s))"
    using h by (simp add: Include_heap)
  ultimately show ?case by simp
next
  case (windowed_pop_dequeued M s D b item s')
  then have w: "open_windowed M s D" and h: "heap_inv (cost M) (open_queue s)" by simp_all
  from windowed_pop_dequeued(3) obtain tbl where
    *: "HashTable_Pop (GetKey (M b)) (open_nodes s) = Inr (item, tbl)" "s' = s\<lparr>open_nodes := tbl\<rparr>"
    by (auto simp: PopAlreadyDequeuedOpenNode_Inr)
  from windowed_pop_dequeued(2)
  have "mset (open_queue s) + D = add_mset b (mset (open_queue s) + (D - {#b#}))" by simp
  from open_windowed_pop[OF w this *(1)] have "open_windowed M s' (D - {#b#})"
    by (simp add: open_windowed_def *(2))
  with h *(2) show ?case by simp
qed

lemma PopBestAll_windowed:
  assumes "open_windowed M s D"
  shows "\<exists>s'. snd (PopBestAll M s) = Inr s' \<and> open_queue s' = [] \<and> open_windowed M s' D"
  using assms
proof (induction "length (open_queue s)" arbitrary: s rule: less_induct)
  case less
  show ?case
  proof (cases "open_queue s = []")
    case True
    with less.prems show ?thesis by (simp add: PopBestAll_None)
  next
    case False
    from PopBestOpenNode_windowed[OF less.prems False] obtain item s'
      where p: "PopBestOpenNode M s = Inr (Some item, s')" and o: "open_windowed M s' D"
        and m: "mset (open_queue s) = add_mset item (mset (open_queue s'))" by blast
    from m have "length (open_queue s) = Suc (length (open_queue s'))"
      by (metis size_mset size_add_mset)
    then have "length (open_queue s') < length (open_queue s)" by simp
    from less.hyps[OF this o] show ?thesis by (simp add: PopBestAll_Some[OF p])
  qed
qed

lemma open_windowed_nodes:
  "open_windowed M s D \<Longrightarrow> mset (map snd (open_nodes s)) = mset (open_queue s) + D"
proof -
  assume "open_windowed M s D"
  then have "mset (open_nodes s) = image_mset (entry M) (mset (open_queue s) + D)"
    by (simp add: open_windowed_def)
  then have "image_mset snd (mset (open_nodes s)) =
             image_mset snd (image_mset (entry M) (mset (open_queue s) + D))" by simp
  also have "\<dots> = mset (open_queue s) + D"
    by (simp add: image_mset.compositionality comp_def entry_def)
  finally show ?thesis by simp
qed

lemma run_windowed:
  "windowed_reachable M s D \<Longrightarrow> \<forall>c \<in> set cs. \<not> window_call c \<Longrightarrow>
   run (map (Pair M) cs) s = Inr s' \<Longrightarrow> windowed_reachable M s' D"
proof (induction cs arbitrary: s)
  case Nil
  then show ?case by simp
next
  case (Cons c cs)
  from Cons.prems(3) obtain s1 where s1: "call M c s = Inr s1" "run (map (Pair M) cs) s1 = Inr s'"
    by (auto split: sum.splits)
  from Cons.prems(2) have "\<not> window_call c" by simp
  with Cons.prems(1) s1(1) have "windowed_reachable M s1 D" by (blast intro: windowed_call)
  moreover from Cons.prems(2) have "\<forall>c \<in> set cs. \<not> window_call c" by simp
  ultimately show ?case using s1(2) by (rule Cons.IH)
qed


lemma stable_no_window_windowed:
  "stable_reachable no_window M s \<Longrightarrow> windowed_reachable M s {#}"
proof (induction rule: stable_reachable.induct)
  case (stable_init M)
  show ?case by (rule windowed_init)
next
  case (stable_write M s M')
  from stable_write(3) have "\<forall>p \<in> set (open_queue s). cost M' p = cost M p"
    by (simp add: cost_def)
  with stable_write(4) stable_write(2) show ?case by (rule windowed_write)
next
  case (stable_call M s c s')
  then show ?case by (auto simp: no_window_def intro: windowed_call)
qed

lemma windowed_reachable_reachable: "windowed_reachable M s D \<Longrightarrow> reachable s"
proof (induction rule: windowed_reachable.induct)
  case (windowed_reenqueue M s D b)
  have "call M (Call_ReenqueueOpenNode b) s = Inr (ReenqueueOpenNode M b s)" by simp
  with windowed_reenqueue.IH show ?case by (rule reachable_call)
next
  case (windowed_pop_dequeued M s D b item s')
  then have "call M (Call_PopAlreadyDequeuedOpenNode (GetKey (M b))) s = Inr s'"
    by (simp add: discard_result_def)
  with windowed_pop_dequeued.IH show ?case by (rule reachable_call)
next
  case (windowed_dequeue M s D b s')
  then have "call M Call_DequeueBestOpenNode s = Inr s'" by simp
  with windowed_dequeue.IH show ?case by (rule reachable_call)
qed (auto intro: reachable.intros)

text \<open>
  Every call of \<open>DequeueBestOpenNode\<close> that returns takes out the node that
  \<open>GetBestOpenNode\<close> shows, the head of the queue.
\<close>

lemma DequeueBestOpenNode_best:
  "DequeueBestOpenNode M s = Inr s' \<Longrightarrow> GetBestOpenNode s = Inr (Some (hd (open_queue s)), s)"
  by (auto simp: DequeueBestOpenNode_Inr GetBestOpenNode_eq dest: Shift_result)

lemma windowed_dequeue_hd:
  "windowed_reachable M s D \<Longrightarrow> DequeueBestOpenNode M s = Inr s' \<Longrightarrow>
   windowed_reachable M s' (add_mset (hd (open_queue s)) D)"
  by (blast intro: windowed_dequeue DequeueBestOpenNode_best)

section \<open>The claims\<close>

text \<open>
  C1. In every state of the node list, reached from the constructor by any calls of the
  facade with any node memory at each call, no key is found by both \<open>FindOpenNode\<close> and
  \<open>FindClosedNode\<close>: \<open>InsertOpenNode\<close> aborts when the key is in the closed index,
  \<open>InsertClosedNode\<close> aborts when it is in the open index, and the other calls add no
  key to an index.
\<close>

theorem open_closed_disjoint:
  "reachable s \<Longrightarrow> \<not> (FindOpenNode s k \<noteq> None \<and> FindClosedNode s k \<noteq> None)"
  using reachable_disjoint[of s]
  by (auto simp: FindOpenNode_def FindClosedNode_def Find_None_iff disjoint_inv_def)

theorem open_closed_disjoint_witness:
  "reachable \<lparr>items = 2, open_nodes = [(0, 0)], closed_nodes = [(1 :: nat, 1)], open_queue = [0],
               new_node = None\<rparr> \<and>
   \<not> (FindOpenNode \<lparr>items = 2, open_nodes = [(0, 0)], closed_nodes = [(1 :: nat, 1)],
                     open_queue = [0], new_node = None\<rparr> 1 \<noteq> None \<and>
      FindClosedNode \<lparr>items = 2, open_nodes = [(0, 0)], closed_nodes = [(1 :: nat, 1)],
                       open_queue = [0], new_node = None\<rparr> 1 \<noteq> None)"
proof -
  let ?s = "\<lparr>items = 2, open_nodes = [(0, 0)], closed_nodes = [(1 :: nat, 1)], open_queue = [0],
             new_node = None\<rparr>"
  have "run [(example_memory, Call_CreateNewNode), (example_memory, Call_InsertOpenNode 0),
             (example_memory, Call_CreateNewNode), (example_memory, Call_InsertOpenNode 1),
             (example_memory, Call_PopBestOpenNode), (example_memory, Call_InsertClosedNode 1)]
          NodeList_init = Inr ?s"
    by code_simp
  then have r: "reachable ?s" by (rule run_reachable[OF reachable_init])
  from r open_closed_disjoint[OF r, of 1] show ?thesis by simp
qed



text \<open>
  C3. \<open>CreateNewNode\<close> returns the node under construction when there is one, and takes a
  fresh node from the arena only when there is none. After a call of \<open>CreateNewNode\<close>, any
  calls other than \<open>InsertOpenNode\<close> and \<open>FoundBestNode\<close> may follow: the next
  \<open>CreateNewNode\<close> returns the same node, changes nothing, and the arena has not grown.
\<close>

theorem CreateNewNode_idempotent:
  assumes "CreateNewNode s = (p, s1)"
    and "\<forall>tc \<in> set tr. \<not> clears_new_node (snd tc)"
    and "run tr s1 = Inr s2"
  shows "CreateNewNode s2 = (p, s2) \<and> items s2 = items s1 \<and>
         (if new_node s = None
          then p = BumpAllocContainer_Length (items s) \<and>
               s1 = s\<lparr>items := Suc (items s), new_node := Some p\<rparr>
          else new_node s = Some p \<and> s1 = s)"
proof -
  from assms(1) have n1: "new_node s1 = Some p"
    by (auto simp: CreateNewNode_eq split: option.splits)
  from run_new_node[OF assms(3,2) n1] have "new_node s2 = Some p" "items s2 = items s1"
    by simp_all
  moreover from assms(1) have "if new_node s = None
      then p = BumpAllocContainer_Length (items s) \<and> s1 = s\<lparr>items := Suc (items s), new_node := Some p\<rparr>
      else new_node s = Some p \<and> s1 = s"
    by (auto simp: CreateNewNode_eq BumpAllocContainer_Length_def split: option.splits)
  ultimately show ?thesis by (simp add: CreateNewNode_eq)
qed

theorem CreateNewNode_idempotent_witness:
  "CreateNewNode (NodeList_init :: nat NodeList) =
     (0, \<lparr>items = 1, open_nodes = [], closed_nodes = [], open_queue = [], new_node = Some 0\<rparr>) \<and>
   run [(example_memory, Call_GetBestOpenNode), (example_memory, Call_CreateNewNode)]
     \<lparr>items = 1, open_nodes = [], closed_nodes = [], open_queue = [], new_node = Some 0\<rparr> =
     Inr \<lparr>items = 1, open_nodes = [], closed_nodes = [], open_queue = [], new_node = Some 0\<rparr> \<and>
   CreateNewNode
     (\<lparr>items = 1, open_nodes = [], closed_nodes = [], open_queue = [], new_node = Some 0\<rparr>
        :: nat NodeList) =
     (0, \<lparr>items = 1, open_nodes = [], closed_nodes = [], open_queue = [], new_node = Some 0\<rparr>)"
proof -
  let ?s1 = "\<lparr>items = 1, open_nodes = [], closed_nodes = [], open_queue = [],
              new_node = Some 0\<rparr> :: nat NodeList"
  let ?tr = "[(example_memory, Call_GetBestOpenNode), (example_memory, Call_CreateNewNode)]"
  have a: "CreateNewNode (NodeList_init :: nat NodeList) = (0, ?s1)"
    by (simp add: CreateNewNode_def NodeList_init_def BumpAllocContainer_New_def)
  have b: "\<forall>tc \<in> set ?tr. \<not> clears_new_node (snd tc)" by simp
  have c: "run ?tr ?s1 = Inr ?s1"
    by (simp add: GetBestOpenNode_def CBinaryHeapT_IsEmpty_def discard_result_def CreateNewNode_def)
  from CreateNewNode_idempotent[OF a b c] have "CreateNewNode ?s1 = (0, ?s1)" by (rule conjunct1)
  with a c show ?thesis by blast
qed

text \<open>
  C4. With an empty open queue, which is what both functions test, \<open>GetBestOpenNode\<close> and
  \<open>PopBestOpenNode\<close> return \<^verbatim>\<open>nullptr\<close>, without an abort and without a change. The
  same holds when the open index is empty in a state where index and queue are paired.
  \<open>GetBestOpenNode\<close> never aborts and never changes the node list.
\<close>

theorem absence_is_not_an_error:
  "(CBinaryHeapT_IsEmpty (open_queue s) \<longrightarrow>
      GetBestOpenNode s = Inr (None, s) \<and> PopBestOpenNode M s = Inr (None, s)) \<and>
   (paired_reachable u \<and> HashTable_Count (open_nodes u) = 0 \<longrightarrow>
      GetBestOpenNode u = Inr (None, u) \<and> PopBestOpenNode M u = Inr (None, u)) \<and>
   (\<exists>r. GetBestOpenNode t = Inr (r, t))"
proof (intro conjI impI)
  assume "CBinaryHeapT_IsEmpty (open_queue s)"
  then show "GetBestOpenNode s = Inr (None, s)" "PopBestOpenNode M s = Inr (None, s)"
    by (simp_all add: GetBestOpenNode_def PopBestOpenNode_def)
next
  assume u: "paired_reachable u \<and> HashTable_Count (open_nodes u) = 0"
  with paired_reachable_count[of u] have "open_queue u = []" by simp
  then show "GetBestOpenNode u = Inr (None, u)" "PopBestOpenNode M u = Inr (None, u)"
    by (simp_all add: GetBestOpenNode_eq PopBestOpenNode_None)
next
  show "\<exists>r. GetBestOpenNode t = Inr (r, t)" by (simp add: GetBestOpenNode_eq)
qed

theorem absence_is_not_an_error_witness:
  "CBinaryHeapT_IsEmpty (open_queue (NodeList_init :: nat NodeList)) \<and>
   paired_reachable (NodeList_init :: nat NodeList) \<and>
   HashTable_Count (open_nodes (NodeList_init :: nat NodeList)) = 0 \<and>
   GetBestOpenNode (NodeList_init :: nat NodeList) = Inr (None, NodeList_init) \<and>
   PopBestOpenNode example_memory NodeList_init = Inr (None, NodeList_init)"
proof -
  have a: "CBinaryHeapT_IsEmpty (open_queue (NodeList_init :: nat NodeList))"
    by (simp add: CBinaryHeapT_IsEmpty_def NodeList_init_def)
  have b: "paired_reachable (NodeList_init :: nat NodeList)" by (rule paired_init)
  have c: "HashTable_Count (open_nodes (NodeList_init :: nat NodeList)) = 0"
    by (simp add: HashTable_Count_def NodeList_init_def)
  from absence_is_not_an_error[of "NodeList_init :: nat NodeList" example_memory NodeList_init
    NodeList_init] a b c
  show ?thesis by blast
qed

text \<open>
  C5. Let the queue be a non-empty heap whose nodes are in the open index under their
  keys, each key once, with fewer than \<open>2 ^ 31\<close> entries. Then \<open>PopBestOpenNode\<close> returns the
  node that \<open>GetBestOpenNode\<close> shows; no queued node is cheaper; the node leaves the queue
  and the open index, so that \<open>FindOpenNode\<close> on its key finds nothing and \<open>OpenCount\<close> is
  one less; nothing else changes.
\<close>

theorem PopBestOpenNode_removes_minimum:
  assumes "open_wf M s" and "open_queue s \<noteq> []"
    and "HashTable_Count (open_nodes s) < 2 ^ 31"
  shows "\<exists>item s'.
           PopBestOpenNode M s = Inr (Some item, s') \<and>
           GetBestOpenNode s = Inr (Some item, s) \<and>
           (\<forall>p \<in> set (open_queue s). cost M item \<le> cost M p) \<and>
           FindOpenNode s (GetKey (M item)) = Some item \<and>
           mset (open_queue s) = add_mset item (mset (open_queue s')) \<and>
           FindOpenNode s' (GetKey (M item)) = None \<and>
           OpenCount s' = OpenCount s - 1 \<and>
           closed_nodes s' = closed_nodes s \<and> items s' = items s \<and> new_node s' = new_node s"
proof -
  from assms(2) obtain x xs where q: "open_queue s = x # xs" by (cases "open_queue s") auto
  then obtain q' where sh: "CBinaryHeapT_Shift M (open_queue s) = Inr (x, q')"
    by (simp add: CBinaryHeapT_Shift_def)
  let ?k = "GetKey (M x)"
  let ?tbl = "filter (\<lambda>e. fst e \<noteq> ?k) (open_nodes s)"
  let ?s' = "s\<lparr>open_queue := q', open_nodes := ?tbl\<rparr>"
  from assms(1) have h: "heap_inv (cost M) (open_queue s)"
    and d: "distinct (map fst (open_nodes s))"
    and f: "HashTable_Find (open_nodes s) ?k = Some x"
    using q by (simp_all add: open_wf_def)
  from f have pop: "HashTable_Pop ?k (open_nodes s) = Inr (x, ?tbl)" by (simp add: Pop_result)
  have 1: "PopBestOpenNode M s = Inr (Some x, ?s')"
    using sh pop by (auto simp: PopBestOpenNode_Some)
  have 2: "GetBestOpenNode s = Inr (Some x, s)" using q by (simp add: GetBestOpenNode_eq)
  have 3: "\<forall>p \<in> set (open_queue s). cost M x \<le> cost M p"
    using Shift_min[OF h sh] by blast
  have 4: "FindOpenNode s ?k = Some x" using f by (simp add: FindOpenNode_def)
  have 5: "mset (open_queue s) = add_mset x (mset (open_queue ?s'))"
    using Shift_result[OF sh] by simp
  have 6: "FindOpenNode ?s' ?k = None" by (simp add: FindOpenNode_def)
  have c: "Suc (HashTable_Count ?tbl) = HashTable_Count (open_nodes s)"
    using Pop_count[OF d pop] by simp
  then have "int_cast (HashTable_Count ?tbl) = int_cast (HashTable_Count (open_nodes s)) - 1"
    using assms(3) by (simp add: int_cast_small)
  then have 7: "OpenCount ?s' = OpenCount s - 1" by (simp add: OpenCount_def)
  from 1 2 3 4 5 6 7 show ?thesis by (intro exI[of _ x] exI[of _ ?s']) simp
qed

theorem PopBestOpenNode_removes_minimum_witness:
  "open_wf example_memory
     \<lparr>items = 3, open_nodes = [(2, 2), (1, 1), (0, 0)], closed_nodes = [],
       open_queue = [1, 0, 2], new_node = None\<rparr> \<and>
   open_queue (\<lparr>items = 3, open_nodes = [(2, 2), (1, 1), (0, 0)], closed_nodes = [],
       open_queue = [1, 0, 2], new_node = None\<rparr> :: nat NodeList) \<noteq> [] \<and>
   HashTable_Count (open_nodes (\<lparr>items = 3, open_nodes = [(2, 2), (1, 1), (0, 0)],
       closed_nodes = [], open_queue = [1, 0, 2], new_node = None\<rparr> :: nat NodeList)) < 2 ^ 31 \<and>
   PopBestOpenNode example_memory
     \<lparr>items = 3, open_nodes = [(2, 2), (1, 1), (0, 0)], closed_nodes = [],
       open_queue = [1, 0, 2], new_node = None\<rparr> =
     Inr (Some 1, \<lparr>items = 3, open_nodes = [(2, 2), (0, 0)], closed_nodes = [],
                    open_queue = [0, 2], new_node = None\<rparr>) \<and>
   FindOpenNode \<lparr>items = 3, open_nodes = [(2, 2), (0, 0)], closed_nodes = [],
                  open_queue = [0, 2], new_node = None\<rparr> (GetKey (example_memory 1)) = None \<and>
   OpenCount (\<lparr>items = 3, open_nodes = [(2, 2), (0, 0)], closed_nodes = [],
                open_queue = [0, 2], new_node = None\<rparr> :: nat NodeList) =
   OpenCount (\<lparr>items = 3, open_nodes = [(2, 2), (1, 1), (0, 0)], closed_nodes = [],
                open_queue = [1, 0, 2], new_node = None\<rparr> :: nat NodeList) - 1"
proof -
  let ?cs = "[Call_CreateNewNode, Call_InsertOpenNode 0, Call_CreateNewNode, Call_InsertOpenNode 1,
          Call_CreateNewNode, Call_InsertOpenNode 2] :: nat facade_call list"
  let ?s = "\<lparr>items = 3, open_nodes = [(2, 2), (1, 1), (0, 0)], closed_nodes = [],
       open_queue = [1, 0, 2], new_node = None\<rparr> :: nat NodeList"
  let ?t = "\<lparr>items = 3, open_nodes = [(2, 2), (0, 0)], closed_nodes = [],
       open_queue = [0, 2], new_node = None\<rparr> :: nat NodeList"
  have "run (map (Pair example_memory) ?cs) NodeList_init = Inr ?s" by code_simp
  moreover have "\<forall>c \<in> set ?cs. \<forall>t. no_window c t" by (simp add: no_window_def)
  ultimately have r: "stable_reachable no_window example_memory ?s"
    using stable_init by (blast intro: run_stable)
  have a: "open_wf example_memory ?s"
    using stable_reachable_paired[OF r] stable_reachable_heap[OF r] by (rule open_paired_wf)
  have b: "open_queue ?s \<noteq> []" by simp
  have c: "HashTable_Count (open_nodes ?s) < 2 ^ 31" by (simp add: HashTable_Count_def)
  have d: "PopBestOpenNode example_memory ?s = Inr (Some 1, ?t)" by code_simp
  from PopBestOpenNode_removes_minimum[OF a b c] d
  have "FindOpenNode ?t (GetKey (example_memory 1)) = None \<and> OpenCount ?t = OpenCount ?s - 1"
    by auto
  with a b c d show ?thesis by blast
qed

text \<open>
  C6. Let \<open>GetBestOpenNode\<close> show the node \<open>b\<close>, so that the queue is not empty, and let the
  key of \<open>b\<close> be in the open index. Then \<open>DequeueBestOpenNode\<close> followed by
  \<open>PopAlreadyDequeuedOpenNode\<close> with the key of \<open>b\<close> both succeed; after the first the key is
  still found, after the second \<open>FindOpenNode\<close> finds nothing for it, and \<open>b\<close> has left the
  queue. \<open>PopOpenNode\<close> is not called.
\<close>

theorem matched_pair_removal:
  assumes "GetBestOpenNode s = Inr (Some b, s)"
    and "FindOpenNode s (GetKey (M b)) \<noteq> None"
  shows "\<exists>s1 item s2.
           DequeueBestOpenNode M s = Inr s1 \<and>
           FindOpenNode s1 (GetKey (M b)) = Some item \<and>
           PopAlreadyDequeuedOpenNode (GetKey (M b)) s1 = Inr (item, s2) \<and>
           FindOpenNode s2 (GetKey (M b)) = None \<and>
           mset (open_queue s) = add_mset b (mset (open_queue s2)) \<and>
           closed_nodes s2 = closed_nodes s \<and> items s2 = items s \<and> new_node s2 = new_node s"
proof -
  from assms(1) have ne: "open_queue s \<noteq> []" and b: "b = hd (open_queue s)"
    by (auto simp: GetBestOpenNode_eq split: if_splits)
  then obtain xs where q: "open_queue s = b # xs" by (cases "open_queue s") auto
  then obtain q' where sh: "CBinaryHeapT_Shift M (open_queue s) = Inr (b, q')"
    by (simp add: CBinaryHeapT_Shift_def)
  let ?k = "GetKey (M b)"
  let ?s1 = "s\<lparr>open_queue := q'\<rparr>"
  let ?tbl = "filter (\<lambda>e. fst e \<noteq> ?k) (open_nodes s)"
  let ?s2 = "?s1\<lparr>open_nodes := ?tbl\<rparr>"
  from assms(2) obtain item where f: "HashTable_Find (open_nodes s) ?k = Some item"
    by (auto simp: FindOpenNode_def)
  have 1: "DequeueBestOpenNode M s = Inr ?s1" using sh by (auto simp: DequeueBestOpenNode_Inr)
  have 2: "FindOpenNode ?s1 ?k = Some item" using f by (simp add: FindOpenNode_def)
  have 3: "PopAlreadyDequeuedOpenNode ?k ?s1 = Inr (item, ?s2)"
    using f by (simp add: PopAlreadyDequeuedOpenNode_Inr Pop_result)
  have 4: "FindOpenNode ?s2 ?k = None" by (simp add: FindOpenNode_def)
  have 5: "mset (open_queue s) = add_mset b (mset (open_queue ?s2))"
    using Shift_result[OF sh] by simp
  from 1 2 3 4 5 show ?thesis
    by (intro exI[of _ ?s1] exI[of _ item] exI[of _ ?s2]) simp
qed

theorem matched_pair_removal_witness:
  "GetBestOpenNode \<lparr>items = 3, open_nodes = [(2, 2), (1, 1), (0 :: nat, 0)], closed_nodes = [],
                     open_queue = [1, 0, 2], new_node = None\<rparr> =
     Inr (Some 1, \<lparr>items = 3, open_nodes = [(2, 2), (1, 1), (0, 0)], closed_nodes = [],
                    open_queue = [1, 0, 2], new_node = None\<rparr>) \<and>
   FindOpenNode \<lparr>items = 3, open_nodes = [(2, 2), (1, 1), (0, 0)], closed_nodes = [],
                  open_queue = [1, 0, 2], new_node = None\<rparr> (GetKey (example_memory 1)) \<noteq> None \<and>
   DequeueBestOpenNode example_memory
     \<lparr>items = 3, open_nodes = [(2, 2), (1, 1), (0, 0)], closed_nodes = [],
       open_queue = [1, 0, 2], new_node = None\<rparr> =
     Inr \<lparr>items = 3, open_nodes = [(2, 2), (1, 1), (0, 0)], closed_nodes = [],
           open_queue = [0, 2], new_node = None\<rparr> \<and>
   PopAlreadyDequeuedOpenNode (GetKey (example_memory 1))
     \<lparr>items = 3, open_nodes = [(2, 2), (1, 1), (0, 0)], closed_nodes = [],
       open_queue = [0, 2], new_node = None\<rparr> =
     Inr (1, \<lparr>items = 3, open_nodes = [(2, 2), (0, 0)], closed_nodes = [],
               open_queue = [0, 2], new_node = None\<rparr>) \<and>
   FindOpenNode \<lparr>items = 3, open_nodes = [(2, 2), (0, 0)], closed_nodes = [],
                  open_queue = [0, 2], new_node = None\<rparr> (GetKey (example_memory 1)) = None"
proof -
  let ?s = "\<lparr>items = 3, open_nodes = [(2, 2), (1, 1), (0, 0)], closed_nodes = [],
       open_queue = [1, 0, 2], new_node = None\<rparr> :: nat NodeList"
  let ?s1 = "\<lparr>items = 3, open_nodes = [(2, 2), (1, 1), (0, 0)], closed_nodes = [],
       open_queue = [0, 2], new_node = None\<rparr> :: nat NodeList"
  let ?s2 = "\<lparr>items = 3, open_nodes = [(2, 2), (0, 0)], closed_nodes = [],
       open_queue = [0, 2], new_node = None\<rparr> :: nat NodeList"
  have a: "GetBestOpenNode ?s = Inr (Some 1, ?s)" by code_simp
  have b: "FindOpenNode ?s (GetKey (example_memory 1)) \<noteq> None" by code_simp
  have c: "DequeueBestOpenNode example_memory ?s = Inr ?s1" by code_simp
  have d: "PopAlreadyDequeuedOpenNode (GetKey (example_memory 1)) ?s1 = Inr (1, ?s2)" by code_simp
  from matched_pair_removal[of ?s 1 example_memory, OF a b] c d
  have "FindOpenNode ?s2 (GetKey (example_memory 1)) = None" by auto
  with a b c d show ?thesis by blast
qed

text \<open>
  C7. With assertions active, \<open>InsertOpenNode\<close> on a node whose key is in the closed index
  aborts at the assertion of line 79, and \<open>InsertClosedNode\<close> on a node whose key is in the
  open index aborts at the assertion of line 141. No call removes a key from the closed
  index: once \<open>InsertClosedNode\<close> has closed a key, \<open>InsertOpenNode\<close> on any node with this
  key aborts, whatever calls were made in between.
\<close>

theorem precondition_fails_fast:
  "(FindClosedNode s (GetKey (M item)) \<noteq> None \<longrightarrow>
      InsertOpenNode M item s = Inl (AssertionFailed 79)) \<and>
   (FindOpenNode s (GetKey (M item)) \<noteq> None \<longrightarrow>
      InsertClosedNode M item s = Inl (AssertionFailed 141)) \<and>
   (InsertClosedNode M item s = Inr s1 \<and> run tr s1 = Inr s2 \<and> GetKey (M' item') = GetKey (M item) \<longrightarrow>
      InsertOpenNode M' item' s2 = Inl (AssertionFailed 79))"
proof (intro conjI impI)
  assume "FindClosedNode s (GetKey (M item)) \<noteq> None"
  then show "InsertOpenNode M item s = Inl (AssertionFailed 79)"
    by (auto simp: InsertOpenNode_def dbg_assert_def FindClosedNode_def)
next
  assume "FindOpenNode s (GetKey (M item)) \<noteq> None"
  then show "InsertClosedNode M item s = Inl (AssertionFailed 141)"
    by (auto simp: InsertClosedNode_def dbg_assert_def FindOpenNode_def)
next
  assume a: "InsertClosedNode M item s = Inr s1 \<and> run tr s1 = Inr s2 \<and>
    GetKey (M' item') = GetKey (M item)"
  then have "GetKey (M item) \<in> keys_of (closed_nodes s1)" by (auto simp: InsertClosedNode_Inr)
  with a run_closed_keys[of tr s1 s2] have "GetKey (M' item') \<in> keys_of (closed_nodes s2)" by auto
  then show "InsertOpenNode M' item' s2 = Inl (AssertionFailed 79)"
    by (auto simp: InsertOpenNode_def dbg_assert_def Find_None_iff)
qed

theorem precondition_fails_fast_witness:
  "run [(example_memory, Call_CreateNewNode), (example_memory, Call_InsertOpenNode 0),
        (example_memory, Call_PopBestOpenNode)] NodeList_init =
     Inr \<lparr>items = 1, open_nodes = [], closed_nodes = [], open_queue = [], new_node = None\<rparr> \<and>
   InsertClosedNode example_memory 0
     \<lparr>items = 1, open_nodes = [], closed_nodes = [], open_queue = [], new_node = None\<rparr> =
     Inr \<lparr>items = 1, open_nodes = [], closed_nodes = [(0, 0)], open_queue = [], new_node = None\<rparr> \<and>
   FindClosedNode \<lparr>items = 1, open_nodes = [], closed_nodes = [(0, 0)], open_queue = [],
                    new_node = None\<rparr> (GetKey (example_memory 0)) \<noteq> None \<and>
   InsertOpenNode example_memory 0
     \<lparr>items = 1, open_nodes = [], closed_nodes = [(0, 0)], open_queue = [], new_node = None\<rparr> =
     Inl (AssertionFailed 79) \<and>
   FindOpenNode \<lparr>items = 1, open_nodes = [(0, 0)], closed_nodes = [], open_queue = [0],
                  new_node = None\<rparr> (GetKey (example_memory 0)) \<noteq> None \<and>
   InsertClosedNode example_memory 0
     \<lparr>items = 1, open_nodes = [(0, 0)], closed_nodes = [], open_queue = [0], new_node = None\<rparr> =
     Inl (AssertionFailed 141)"
proof -
  let ?s0 = "\<lparr>items = 1, open_nodes = [], closed_nodes = [], open_queue = [],
              new_node = None\<rparr> :: nat NodeList"
  let ?s1 = "\<lparr>items = 1, open_nodes = [], closed_nodes = [(0, 0)], open_queue = [],
              new_node = None\<rparr> :: nat NodeList"
  let ?s2 = "\<lparr>items = 1, open_nodes = [(0, 0)], closed_nodes = [], open_queue = [0],
              new_node = None\<rparr> :: nat NodeList"
  have r: "run [(example_memory, Call_CreateNewNode), (example_memory, Call_InsertOpenNode 0),
        (example_memory, Call_PopBestOpenNode)] NodeList_init = Inr ?s0"
    by code_simp
  have c: "InsertClosedNode example_memory 0 ?s0 = Inr ?s1"
    by (simp add: InsertClosedNode_def dbg_assert_def HashTable_Find_def HashTable_Push_def
          example_memory_def)
  have f1: "FindClosedNode ?s1 (GetKey (example_memory 0)) \<noteq> None"
    by (simp add: FindClosedNode_def HashTable_Find_def example_memory_def)
  have f2: "FindOpenNode ?s2 (GetKey (example_memory 0)) \<noteq> None"
    by (simp add: FindOpenNode_def HashTable_Find_def example_memory_def)
  from precondition_fails_fast[of ?s1 example_memory 0 ?s0 "[]" ?s1 example_memory 0] f1
  have 1: "InsertOpenNode example_memory 0 ?s1 = Inl (AssertionFailed 79)" by blast
  from precondition_fails_fast[of ?s2 example_memory 0 ?s0 "[]" ?s1 example_memory 0] f2
  have 2: "InsertClosedNode example_memory 0 ?s2 = Inl (AssertionFailed 141)" by blast
  from r c f1 f2 1 2 show ?thesis by simp
qed

text \<open>
  C8, as stated, fails: \<open>DequeueBestOpenNode\<close> takes a node out of the queue and leaves it
  in the open index. After the node 0 is created, inserted and dequeued, \<open>OpenCount\<close> is 1
  and the queue is empty.
\<close>

theorem queue_index_pairing_counterexample:
  "run [(example_memory, Call_CreateNewNode), (example_memory, Call_InsertOpenNode 0),
        (example_memory, Call_DequeueBestOpenNode)] NodeList_init =
     Inr \<lparr>items = 1, open_nodes = [(0, 0)], closed_nodes = [], open_queue = [], new_node = None\<rparr> \<and>
   reachable \<lparr>items = 1, open_nodes = [(0 :: nat, 0)], closed_nodes = [], open_queue = [],
               new_node = None\<rparr> \<and>
   OpenCount (\<lparr>items = 1, open_nodes = [(0, 0)], closed_nodes = [], open_queue = [],
                new_node = None\<rparr> :: nat NodeList) = 1 \<and>
   length (open_queue (\<lparr>items = 1, open_nodes = [(0, 0)], closed_nodes = [], open_queue = [],
                         new_node = None\<rparr> :: nat NodeList)) = 0"
proof -
  let ?s = "\<lparr>items = 1, open_nodes = [(0, 0)], closed_nodes = [], open_queue = [],
             new_node = None\<rparr> :: nat NodeList"
  have a: "run [(example_memory, Call_CreateNewNode), (example_memory, Call_InsertOpenNode 0),
        (example_memory, Call_DequeueBestOpenNode)] NodeList_init = Inr ?s"
    by code_simp
  then have b: "reachable ?s" by (rule run_reachable[OF reachable_init])
  have c: "OpenCount ?s = 1" by (simp add: OpenCount_def HashTable_Count_def int_cast_def)
  have d: "length (open_queue ?s) = 0" by simp
  from a b c d show ?thesis by blast
qed

text \<open>
  C8, amended. After any calls of the facade from the constructor, with any node memory
  at each call, the number of entries of the open index plus the number of calls of
  \<open>ReenqueueOpenNode\<close> and \<open>PopAlreadyDequeuedOpenNode\<close> made is the number of elements
  of the open queue plus the number of calls of \<open>DequeueBestOpenNode\<close> made. So when as
  many windows were closed as were opened, whatever calls lie in between, the open index
  and the open queue hold the same number of entries and \<open>OpenCount\<close> is the number of
  elements of the queue (as an \<^verbatim>\<open>int\<close>); when not, the two numbers differ; and with
  fewer than \<open>2^31\<close> open nodes \<open>OpenCount\<close> less the number of elements of the queue is
  the number of calls of \<open>DequeueBestOpenNode\<close> less the number of calls of the two
  others.
\<close>

theorem queue_index_pairing_law:
  assumes "run tr NodeList_init = Inr s"
  shows "HashTable_Count (open_nodes s) + closes tr = length (open_queue s) + dequeues tr \<and>
         (dequeues tr = closes tr \<longrightarrow>
            HashTable_Count (open_nodes s) = length (open_queue s) \<and>
            OpenCount s = int_cast (length (open_queue s))) \<and>
         (dequeues tr \<noteq> closes tr \<longrightarrow> HashTable_Count (open_nodes s) \<noteq> length (open_queue s)) \<and>
         (HashTable_Count (open_nodes s) < 2 ^ 31 \<longrightarrow>
            OpenCount s - int (length (open_queue s)) = int (dequeues tr) - int (closes tr))"
proof -
  from run_count[OF reachable_init assms]
  have "int (HashTable_Count (open_nodes s)) - int (length (open_queue s)) =
        int (dequeues tr) - int (closes tr)"
    by (simp add: NodeList_init_def HashTable_Count_def)
  then have 1: "HashTable_Count (open_nodes s) + closes tr = length (open_queue s) + dequeues tr"
    by linarith
  have 2: "HashTable_Count (open_nodes s) < 2 ^ 31 \<longrightarrow>
            OpenCount s = int (HashTable_Count (open_nodes s))"
    by (simp add: OpenCount_def int_cast_small)
  from 1 2 show ?thesis by (auto simp: OpenCount_def)
qed

theorem queue_index_pairing_law_witness:
  "run (map (Pair example_memory)
         [Call_CreateNewNode, Call_InsertOpenNode 0, Call_CreateNewNode, Call_InsertOpenNode 1,
          Call_DequeueBestOpenNode, Call_CreateNewNode, Call_InsertOpenNode 2]) NodeList_init =
     Inr \<lparr>items = 3, open_nodes = [(2, 2), (1, 1), (0, 0)], closed_nodes = [],
           open_queue = [0, 2], new_node = None\<rparr> \<and>
   OpenCount (\<lparr>items = 3, open_nodes = [(2, 2), (1, 1), (0, 0)], closed_nodes = [],
           open_queue = [0, 2], new_node = None\<rparr> :: nat NodeList) -
     int (length (open_queue (\<lparr>items = 3, open_nodes = [(2, 2), (1, 1), (0, 0)], closed_nodes = [],
           open_queue = [0, 2], new_node = None\<rparr> :: nat NodeList))) = 1 \<and>
   run (map (Pair example_memory)
         [Call_CreateNewNode, Call_InsertOpenNode 0, Call_CreateNewNode, Call_InsertOpenNode 1,
          Call_DequeueBestOpenNode, Call_CreateNewNode, Call_InsertOpenNode 2,
          Call_ReenqueueOpenNode 1]) NodeList_init =
     Inr \<lparr>items = 3, open_nodes = [(2, 2), (1, 1), (0, 0)], closed_nodes = [],
           open_queue = [1, 2, 0], new_node = None\<rparr> \<and>
   OpenCount (\<lparr>items = 3, open_nodes = [(2, 2), (1, 1), (0, 0)], closed_nodes = [],
           open_queue = [1, 2, 0], new_node = None\<rparr> :: nat NodeList) =
     int_cast (length (open_queue (\<lparr>items = 3, open_nodes = [(2, 2), (1, 1), (0, 0)],
           closed_nodes = [], open_queue = [1, 2, 0], new_node = None\<rparr> :: nat NodeList))) \<and>
   OpenCount (\<lparr>items = 3, open_nodes = [(2, 2), (1, 1), (0, 0)], closed_nodes = [],
           open_queue = [1, 2, 0], new_node = None\<rparr> :: nat NodeList) = 3"
proof -
  let ?cs1 = "[Call_CreateNewNode, Call_InsertOpenNode 0, Call_CreateNewNode, Call_InsertOpenNode 1,
          Call_DequeueBestOpenNode, Call_CreateNewNode, Call_InsertOpenNode 2] :: nat facade_call list"
  let ?cs2 = "[Call_CreateNewNode, Call_InsertOpenNode 0, Call_CreateNewNode, Call_InsertOpenNode 1,
          Call_DequeueBestOpenNode, Call_CreateNewNode, Call_InsertOpenNode 2,
          Call_ReenqueueOpenNode 1] :: nat facade_call list"
  let ?s1 = "\<lparr>items = 3, open_nodes = [(2, 2), (1, 1), (0, 0)], closed_nodes = [],
           open_queue = [0, 2], new_node = None\<rparr> :: nat NodeList"
  let ?s2 = "\<lparr>items = 3, open_nodes = [(2, 2), (1, 1), (0, 0)], closed_nodes = [],
           open_queue = [1, 2, 0], new_node = None\<rparr> :: nat NodeList"
  have a: "run (map (Pair example_memory) ?cs1) NodeList_init = Inr ?s1" by code_simp
  have b: "run (map (Pair example_memory) ?cs2) NodeList_init = Inr ?s2" by code_simp
  have c: "dequeues (map (Pair example_memory) ?cs1) = 1" "closes (map (Pair example_memory) ?cs1) = 0"
    by (simp_all add: dequeues_def closes_def)
  have d: "dequeues (map (Pair example_memory) ?cs2) = 1" "closes (map (Pair example_memory) ?cs2) = 1"
    by (simp_all add: dequeues_def closes_def)
  have e: "HashTable_Count (open_nodes ?s1) < 2 ^ 31" by (simp add: HashTable_Count_def)
  from queue_index_pairing_law[OF a] e c
  have f: "OpenCount ?s1 - int (length (open_queue ?s1)) = 1" by simp
  from queue_index_pairing_law[OF b] d
  have g: "OpenCount ?s2 = int_cast (length (open_queue ?s2))" by simp
  have h: "OpenCount ?s2 = 3" by (simp add: OpenCount_def HashTable_Count_def int_cast_def)
  from a b f g h show ?thesis by blast
qed

text \<open>
  C9, as stated, fails: a node that \<open>PopBestOpenNode\<close> returned is in neither index, and
  the arena still counts it. After two nodes are created, inserted and popped,
  \<open>TotalCount\<close> is 2, \<open>OpenCount\<close> and \<open>ClosedCount\<close> are 0, and no node is under
  construction.
\<close>

theorem conservation_counterexample:
  "run [(example_memory, Call_CreateNewNode), (example_memory, Call_InsertOpenNode 0),
        (example_memory, Call_CreateNewNode), (example_memory, Call_InsertOpenNode 1),
        (example_memory, Call_PopBestOpenNode), (example_memory, Call_PopBestOpenNode)]
     NodeList_init =
     Inr \<lparr>items = 2, open_nodes = [], closed_nodes = [], open_queue = [], new_node = None\<rparr> \<and>
   TotalCount (\<lparr>items = 2, open_nodes = [], closed_nodes = [], open_queue = [],
                 new_node = None\<rparr> :: nat NodeList) = 2 \<and>
   OpenCount (\<lparr>items = 2, open_nodes = [], closed_nodes = [], open_queue = [],
                new_node = None\<rparr> :: nat NodeList) = 0 \<and>
   ClosedCount (\<lparr>items = 2, open_nodes = [], closed_nodes = [], open_queue = [],
                  new_node = None\<rparr> :: nat NodeList) = 0 \<and>
   new_node (\<lparr>items = 2, open_nodes = [], closed_nodes = [], open_queue = [],
               new_node = None\<rparr> :: nat NodeList) = None"
proof -
  let ?s = "\<lparr>items = 2, open_nodes = [], closed_nodes = [], open_queue = [],
             new_node = None\<rparr> :: nat NodeList"
  have a: "run [(example_memory, Call_CreateNewNode), (example_memory, Call_InsertOpenNode 0),
        (example_memory, Call_CreateNewNode), (example_memory, Call_InsertOpenNode 1),
        (example_memory, Call_PopBestOpenNode), (example_memory, Call_PopBestOpenNode)]
     NodeList_init = Inr ?s"
    by code_simp
  have b: "TotalCount ?s = 2" by (simp add: TotalCount_def BumpAllocContainer_Length_def int_cast_def)
  have c: "OpenCount ?s = 0" by (simp add: OpenCount_def HashTable_Count_def int_cast_def)
  have d: "ClosedCount ?s = 0" by (simp add: ClosedCount_def HashTable_Count_def int_cast_def)
  from a b c d show ?thesis by simp
qed

text \<open>
  C9, amended. Let every node handed to the node list be a node of its arena, let the
  caller keep to section 6, and let the arena hold fewer than \<open>2 ^ 31\<close> nodes. Then
  \<open>TotalCount\<close> is \<open>OpenCount\<close> plus \<open>ClosedCount\<close> plus the number of arena nodes that are
  in neither index; so \<open>TotalCount\<close> is at least \<open>OpenCount + ClosedCount\<close>, and the
  difference has no bound.
\<close>

theorem conservation_exact:
  assumes "stable_reachable arena_args M s" and "BumpAllocContainer_Length (items s) < 2 ^ 31"
  shows "TotalCount s =
           OpenCount s + ClosedCount s +
           int (card {p. p < BumpAllocContainer_Length (items s) \<and> p \<notin> snd ` indexed s}) \<and>
         OpenCount s + ClosedCount s \<le> TotalCount s"
proof -
  have r: "reachable s" using assms(1) by (rule stable_reachable_reachable)
  from indexed_exact[OF arena_reachable_inv[OF assms(1)] reachable_distinct[OF r]
      reachable_disjoint[OF r]]
  have e: "BumpAllocContainer_Length (items s) =
         HashTable_Count (open_nodes s) + HashTable_Count (closed_nodes s) +
         card {p. p < BumpAllocContainer_Length (items s) \<and> p \<notin> snd ` indexed s}" .
  then have "HashTable_Count (open_nodes s) < 2 ^ 31" "HashTable_Count (closed_nodes s) < 2 ^ 31"
    using assms(2) by simp_all
  then have "OpenCount s = int (HashTable_Count (open_nodes s))"
    "ClosedCount s = int (HashTable_Count (closed_nodes s))"
    "TotalCount s = int (BumpAllocContainer_Length (items s))"
    using assms(2) by (simp_all add: OpenCount_def ClosedCount_def TotalCount_def int_cast_small)
  with e show ?thesis by simp
qed

theorem conservation_exact_witness:
  "stable_reachable arena_args example_memory
     \<lparr>items = 2, open_nodes = [], closed_nodes = [(1, 1)], open_queue = [], new_node = None\<rparr> \<and>
   BumpAllocContainer_Length (items (\<lparr>items = 2, open_nodes = [], closed_nodes = [(1, 1)],
     open_queue = [], new_node = None\<rparr> :: nat NodeList)) < 2 ^ 31 \<and>
   TotalCount (\<lparr>items = 2, open_nodes = [], closed_nodes = [(1, 1)], open_queue = [],
                 new_node = None\<rparr> :: nat NodeList) = 2 \<and>
   OpenCount (\<lparr>items = 2, open_nodes = [], closed_nodes = [(1, 1)], open_queue = [],
                new_node = None\<rparr> :: nat NodeList) = 0 \<and>
   ClosedCount (\<lparr>items = 2, open_nodes = [], closed_nodes = [(1, 1)], open_queue = [],
                  new_node = None\<rparr> :: nat NodeList) = 1 \<and>
   card {p. p < BumpAllocContainer_Length (items (\<lparr>items = 2, open_nodes = [], closed_nodes = [(1, 1)],
              open_queue = [], new_node = None\<rparr> :: nat NodeList)) \<and>
            p \<notin> snd ` indexed (\<lparr>items = 2, open_nodes = [], closed_nodes = [(1, 1)],
              open_queue = [], new_node = None\<rparr> :: nat NodeList)} = 1"
proof -
  let ?s0 = "NodeList_init :: nat NodeList"
  let ?s1 = "\<lparr>items = 1, open_nodes = [], closed_nodes = [], open_queue = [],
              new_node = Some 0\<rparr> :: nat NodeList"
  let ?s2 = "\<lparr>items = 1, open_nodes = [(0, 0)], closed_nodes = [], open_queue = [0],
              new_node = None\<rparr> :: nat NodeList"
  let ?s3 = "\<lparr>items = 2, open_nodes = [(0, 0)], closed_nodes = [], open_queue = [0],
              new_node = Some 1\<rparr> :: nat NodeList"
  let ?s4 = "\<lparr>items = 2, open_nodes = [(1, 1), (0, 0)], closed_nodes = [], open_queue = [1, 0],
              new_node = None\<rparr> :: nat NodeList"
  let ?s5 = "\<lparr>items = 2, open_nodes = [(0, 0)], closed_nodes = [], open_queue = [0],
              new_node = None\<rparr> :: nat NodeList"
  let ?s6 = "\<lparr>items = 2, open_nodes = [(0, 0)], closed_nodes = [(1, 1)], open_queue = [0],
              new_node = None\<rparr> :: nat NodeList"
  let ?s7 = "\<lparr>items = 2, open_nodes = [], closed_nodes = [(1, 1)], open_queue = [],
              new_node = None\<rparr> :: nat NodeList"
  have r0: "stable_reachable arena_args example_memory ?s0" by (rule stable_init)
  have c1: "call example_memory Call_CreateNewNode ?s0 = Inr ?s1" by code_simp
  have r1: "stable_reachable arena_args example_memory ?s1"
    by (rule stable_call[OF r0 _ c1]) simp
  have c2: "call example_memory (Call_InsertOpenNode 0) ?s1 = Inr ?s2" by code_simp
  have r2: "stable_reachable arena_args example_memory ?s2"
    by (rule stable_call[OF r1 _ c2]) (simp add: BumpAllocContainer_Length_def)
  have c3: "call example_memory Call_CreateNewNode ?s2 = Inr ?s3" by code_simp
  have r3: "stable_reachable arena_args example_memory ?s3"
    by (rule stable_call[OF r2 _ c3]) simp
  have c4: "call example_memory (Call_InsertOpenNode 1) ?s3 = Inr ?s4" by code_simp
  have r4: "stable_reachable arena_args example_memory ?s4"
    by (rule stable_call[OF r3 _ c4]) (simp add: BumpAllocContainer_Length_def)
  have c5: "call example_memory Call_PopBestOpenNode ?s4 = Inr ?s5" by code_simp
  have r5: "stable_reachable arena_args example_memory ?s5"
    by (rule stable_call[OF r4 _ c5]) simp
  have c6: "call example_memory (Call_InsertClosedNode 1) ?s5 = Inr ?s6" by code_simp
  have r6: "stable_reachable arena_args example_memory ?s6"
    by (rule stable_call[OF r5 _ c6]) (simp add: BumpAllocContainer_Length_def)
  have c7: "call example_memory Call_PopBestOpenNode ?s6 = Inr ?s7" by code_simp
  have r7: "stable_reachable arena_args example_memory ?s7"
    by (rule stable_call[OF r6 _ c7]) simp
  have l: "BumpAllocContainer_Length (items ?s7) < 2 ^ 31" by (simp add: BumpAllocContainer_Length_def)
  have t: "TotalCount ?s7 = 2" by (simp add: TotalCount_def BumpAllocContainer_Length_def int_cast_def)
  have o: "OpenCount ?s7 = 0" by (simp add: OpenCount_def HashTable_Count_def int_cast_def)
  have c: "ClosedCount ?s7 = 1" by (simp add: ClosedCount_def HashTable_Count_def int_cast_def)
  from conservation_exact[OF r7 l] t o c
  have "card {p. p < BumpAllocContainer_Length (items ?s7) \<and> p \<notin> snd ` indexed ?s7} = 1" by simp
  with r7 l t o c show ?thesis by blast
qed

text \<open>
  C10. \<open>InsertClosedNode\<close> leaves \<open>new_node\<close> as it is. When the node under construction
  is closed, the next \<open>CreateNewNode\<close> returns this node again, now found in the closed
  index, and allocates nothing. \<open>InsertOpenNode\<close> on the node under construction clears
  \<open>new_node\<close>, and the next \<open>CreateNewNode\<close> allocates.
\<close>

theorem InsertClosedNode_keeps_new_node:
  "(InsertClosedNode M item s = Inr s' \<longrightarrow>
      new_node s' = new_node s \<and>
      (new_node s = Some item \<longrightarrow>
         CreateNewNode s' = (item, s') \<and>
         FindClosedNode s' (GetKey (M item)) = Some item \<and>
         TotalCount s' = TotalCount s)) \<and>
   (InsertOpenNode M item s = Inr s'' \<and> new_node s = Some item \<longrightarrow>
      new_node s'' = None \<and>
      CreateNewNode s'' =
        (BumpAllocContainer_Length (items s), s''\<lparr>items := Suc (items s), new_node := Some (items s)\<rparr>))"
  by (auto simp: InsertClosedNode_Inr InsertOpenNode_Inr CreateNewNode_eq FindClosedNode_def
        HashTable_Find_def TotalCount_def BumpAllocContainer_Length_def)

theorem InsertClosedNode_keeps_new_node_witness:
  "InsertClosedNode example_memory 0
     \<lparr>items = 1, open_nodes = [], closed_nodes = [], open_queue = [], new_node = Some 0\<rparr> =
     Inr \<lparr>items = 1, open_nodes = [], closed_nodes = [(0, 0)], open_queue = [], new_node = Some 0\<rparr> \<and>
   CreateNewNode
     \<lparr>items = 1, open_nodes = [], closed_nodes = [(0 :: nat, 0)], open_queue = [], new_node = Some 0\<rparr> =
     (0, \<lparr>items = 1, open_nodes = [], closed_nodes = [(0, 0)], open_queue = [], new_node = Some 0\<rparr>) \<and>
   FindClosedNode
     \<lparr>items = 1, open_nodes = [], closed_nodes = [(0 :: nat, 0)], open_queue = [], new_node = Some 0\<rparr>
     (GetKey (example_memory 0)) = Some 0 \<and>
   InsertOpenNode example_memory 0
     \<lparr>items = 1, open_nodes = [], closed_nodes = [], open_queue = [], new_node = Some 0\<rparr> =
     Inr \<lparr>items = 1, open_nodes = [(0, 0)], closed_nodes = [], open_queue = [0], new_node = None\<rparr> \<and>
   CreateNewNode
     \<lparr>items = 1, open_nodes = [(0 :: nat, 0)], closed_nodes = [], open_queue = [0], new_node = None\<rparr> =
     (1, \<lparr>items = 2, open_nodes = [(0, 0)], closed_nodes = [], open_queue = [0], new_node = Some 1\<rparr>)"
proof -
  let ?s = "\<lparr>items = 1, open_nodes = [], closed_nodes = [], open_queue = [],
             new_node = Some 0\<rparr> :: nat NodeList"
  let ?c = "\<lparr>items = 1, open_nodes = [], closed_nodes = [(0, 0)], open_queue = [],
             new_node = Some 0\<rparr> :: nat NodeList"
  let ?o = "\<lparr>items = 1, open_nodes = [(0, 0)], closed_nodes = [], open_queue = [0],
             new_node = None\<rparr> :: nat NodeList"
  have a: "InsertClosedNode example_memory 0 ?s = Inr ?c"
    by (simp add: InsertClosedNode_def dbg_assert_def HashTable_Find_def HashTable_Push_def
          example_memory_def)
  have b: "InsertOpenNode example_memory 0 ?s = Inr ?o"
    by code_simp
  have n: "new_node ?s = Some 0" by simp
  from InsertClosedNode_keeps_new_node[of example_memory 0 ?s ?c ?o] a b n
  show ?thesis by (simp add: BumpAllocContainer_Length_def)
qed

end
